theory Spec2Isabelle
  imports Complex_Main "HOL-Library.AList"
begin

section \<open>RFID laundry locker system: a shallow embedding of \<open>laundry_locker_api.py\<close>\<close>

text \<open>
  Conventions of the embedding.
  \<^item> Python strings are \<open>string\<close>; card and locker identifiers are strings, so
    \<open>str(x)\<close> on them is the identity. Case folding and stripping are modelled on ASCII.
  \<^item> A \<open>datetime\<close> is an \<open>instant\<close>: whole microseconds since \<open>datetime.min\<close>
    (0001-01-01T00:00:00); a \<open>timedelta\<close> is a difference of instants and
    \<open>total_seconds\<close> reads it in seconds, as an exact rational.
  \<^item> A Python \<open>dict\<close> is an association list in insertion order
    (\<open>AList.update\<close> overwrites in place or appends, \<open>AList.delete\<close> removes the key).
  \<^item> Calls into the outside world (clock, uuid, wash-type catalogue, file write,
    telemetry post, reader poll, reader reinitialisation) take their outcome from an
    explicit environment argument; one call reads the clock once. GPIO calls are taken
    not to raise. Logging is omitted.
  \<^item> The records carry the keys the code reads without a default (a wash type has an
    \<open>id\<close> and a \<open>name\<close>, the configuration has \<open>relay_pins\<close> and a non-negative
    \<open>unlock_duration\<close>); keys read with a default are optional fields.
  \<^item> The two threads are modelled apart: the detector over \<open>rfid_state\<close>, the request
    handlers over \<open>system\<close>, each operation running to its end.
\<close>

subsection \<open>Python string helpers\<close>

definition lower_char :: "char \<Rightarrow> char" where
  "lower_char c =
     (case map_of (zip ''ABCDEFGHIJKLMNOPQRSTUVWXYZ'' ''abcdefghijklmnopqrstuvwxyz'') c of
        Some l \<Rightarrow> l
      | None \<Rightarrow> c)"

definition lower :: "string \<Rightarrow> string" where
  "lower s = map lower_char s"

definition is_space :: "char \<Rightarrow> bool" where
  "is_space c = (c \<in> set [CHR 0x20, CHR 0x09, CHR 0x0A, CHR 0x0B, CHR 0x0C, CHR 0x0D,
                           CHR 0x1C, CHR 0x1D, CHR 0x1E, CHR 0x1F])"

definition strip :: "string \<Rightarrow> string" where
  "strip s = rev (dropWhile is_space (rev (dropWhile is_space s)))"

subsection \<open>Time\<close>

type_synonym instant = int

definition total_seconds :: "int \<Rightarrow> rat" where
  "total_seconds d = of_int d / 1000000"

definition seconds :: "int \<Rightarrow> int" where
  "seconds n = n * 1000000"

text \<open>
  \<open>datetime.max\<close> is 9999-12-31T23:59:59.999999, the last microsecond of day 3652059.
\<close>

definition datetime_max :: instant where
  "datetime_max = 3652059 * 86400000000 - 1"

datatype py_error = TypeError | OverflowError

text \<open>
  \<open>timedelta(minutes=n)\<close> for an integer \<open>n\<close>: the constructor normalises to whole days
  (rounding down) and refuses more than 999999999 of them in either direction.
\<close>

definition timedelta_minutes :: "int \<Rightarrow> py_error + int" where
  "timedelta_minutes n =
     (if \<bar>n div 1440\<bar> > 999999999 then Inl OverflowError else Inr (n * 60000000))"

text \<open>\<open>datetime + timedelta\<close>: the sum has to be a \<open>datetime\<close> again.\<close>

definition datetime_add :: "instant \<Rightarrow> int \<Rightarrow> py_error + instant" where
  "datetime_add t delta =
     (if 0 \<le> t + delta \<and> t + delta \<le> datetime_max then Inr (t + delta)
      else Inl OverflowError)"

subsection \<open>Configuration\<close>

datatype jval = JInt int | JStr string

text \<open>
  The value under a wash type's \<open>estimated_time\<close> key, when the key is there: a JSON
  integer, or a value \<open>timedelta\<close> does not accept as minutes (null, a string, an array,
  an object). Fractional numbers are left out of the model.
\<close>

datatype duration = Minutes int | NotANumber

record wash_type =
  wt_id :: jval
  wt_name :: string
  wt_price :: rat
  wt_estimated_time :: "duration option"

record config =
  cfg_relay_pins :: "(string \<times> nat) list"
  unlock_duration :: nat
  wash_types :: "wash_type list"
  card_validity_window :: "rat option"

text \<open>\<open>DEFAULT_CONFIG\<close>, restricted to the keys the modelled operations read.\<close>

definition DEFAULT_CONFIG :: config where
  "DEFAULT_CONFIG =
     \<lparr>cfg_relay_pins = [(''1'', 17), (''2'', 27)],
      unlock_duration = 5,
      wash_types =
        [\<lparr>wt_id = JInt 1, wt_name = ''Standard Wash'', wt_price = 5, wt_estimated_time = None\<rparr>,
         \<lparr>wt_id = JInt 2, wt_name = ''Delicate Wash'', wt_price = 15 / 2, wt_estimated_time = None\<rparr>,
         \<lparr>wt_id = JInt 3, wt_name = ''Heavy Duty'', wt_price = 10, wt_estimated_time = None\<rparr>],
      card_validity_window = Some 30\<rparr>"

subsection \<open>The read cache and \<open>get_last_card\<close>\<close>

record card_read =
  c_card_id :: string
  timestamp :: instant
  read_count :: int

text \<open>\<open>self.config.get('card_validity_window', 30)\<close>\<close>

definition validity_window :: "config \<Rightarrow> rat" where
  "validity_window cfg = (case card_validity_window cfg of Some w \<Rightarrow> w | None \<Rightarrow> 30)"

text \<open>
  The loop \<open>for i in range(len(self.card_queue) - 1, -1, -1)\<close>: the argument counts the
  indices still to visit, so \<open>Suc i\<close> visits index \<open>i\<close> next.
\<close>

fun multi_read_scan :: "config \<Rightarrow> instant \<Rightarrow> card_read list \<Rightarrow> nat \<Rightarrow> card_read option" where
  "multi_read_scan cfg now q 0 = None"
| "multi_read_scan cfg now q (Suc i) =
     (let entry = q ! i;
          time_diff = total_seconds (now - timestamp entry)
      in if read_count entry > 1 \<and> time_diff \<le> validity_window cfg then Some entry
         else multi_read_scan cfg now q i)"

definition get_last_card :: "config \<Rightarrow> instant \<Rightarrow> card_read list \<Rightarrow> card_read option" where
  "get_last_card cfg now q =
     (if q = [] then None
      else case multi_read_scan cfg now q (length q) of
             Some entry \<Rightarrow> Some entry
           | None \<Rightarrow>
               (let entry = last q;
                    time_diff = total_seconds (now - timestamp entry)
                in if time_diff \<le> validity_window cfg then Some entry else None))"

text \<open>
  The query as the specification words it: the entries newest first, the first one read
  more than once and within the window; failing that the most recent entry if it is
  within the window. An entry is within the window when its age in microseconds is at
  most the configured \<open>card_validity_window\<close> seconds, 30 seconds when none is
  configured.
\<close>

definition within_window :: "config \<Rightarrow> instant \<Rightarrow> card_read \<Rightarrow> bool" where
  "within_window cfg now c =
     (case card_validity_window cfg of
        Some window_seconds \<Rightarrow> of_int (now - timestamp c) \<le> window_seconds * 1000000
      | None \<Rightarrow> now - timestamp c \<le> 30000000)"

definition get_last_card_spec :: "config \<Rightarrow> instant \<Rightarrow> card_read list \<Rightarrow> card_read option" where
  "get_last_card_spec cfg now q =
     (case find (\<lambda>c. read_count c > 1 \<and> within_window cfg now c) (rev q) of
        Some c \<Rightarrow> Some c
      | None \<Rightarrow>
          (case rev q of
             [] \<Rightarrow> None
           | newest # _ \<Rightarrow> if within_window cfg now newest then Some newest else None))"

subsection \<open>The card-presence detector: \<open>rfid_reader_loop\<close>\<close>

text \<open>
  The body of the \<open>for existing_card in self.card_queue\<close> loop with its \<open>break\<close>:
  \<open>Some\<close> of the updated queue when a duplicate was found (\<open>is_duplicate = True\<close>),
  \<open>None\<close> when the loop ran to its end.
\<close>

fun refresh_duplicate :: "string \<Rightarrow> instant \<Rightarrow> card_read list \<Rightarrow> card_read list option" where
  "refresh_duplicate cid now [] = None"
| "refresh_duplicate cid now (existing_card # rest) =
     (if c_card_id existing_card = cid
         \<and> total_seconds (now - timestamp existing_card) < 2
      then Some (existing_card\<lparr>timestamp := now\<rparr> # rest)
      else map_option ((#) existing_card) (refresh_duplicate cid now rest))"

text \<open>The block run under \<open>card_read_lock\<close> for a detected card.\<close>

definition record_card :: "string \<Rightarrow> instant \<Rightarrow> card_read list \<Rightarrow> card_read list" where
  "record_card cid now q =
     (let q1 = (case refresh_duplicate cid now q of
                  Some updated \<Rightarrow> updated
                | None \<Rightarrow> q @ [\<lparr>c_card_id = cid, timestamp = now, read_count = 1\<rparr>])
      in if length q1 > 10 then tl q1 else q1)"

text \<open>\<open>str(id)\<close> for the non-negative integer identifier the reader returns.\<close>

definition digit_char :: "nat \<Rightarrow> char" where
  "digit_char d = ''0123456789'' ! d"

fun str_nat :: "nat \<Rightarrow> string" where
  "str_nat n = (if n < 10 then [digit_char n] else str_nat (n div 10) @ [digit_char (n mod 10)])"

declare str_nat.simps [simp del]

datatype poll = ReadError | NoCard | CardId nat

text \<open>
  What the outside world delivers during one iteration: the outcome of
  \<open>read_no_block\<close>, the clock, and whether \<open>initialize_rfid\<close> would succeed.
\<close>

record rfid_env =
  poll_result :: poll
  clock :: instant
  reinit_ok :: bool

datatype rfid_event = Poll | Reinitialize bool | Pause rat

record rfid_state =
  card_queue :: "card_read list"
  consecutive_errors :: nat
  loop_last_successful_read :: instant
  read_interval :: rat
  rfid_reads_attempted :: nat
  rfid_reads_successful :: nat
  rfid_errors :: nat
  last_successful_read :: "instant option"
  last_rfid_init :: "instant option"
  rfid_trace :: "rfid_event list"

text \<open>
  \<open>initialize_rfid\<close> as the loop sees it: one reinitialisation attempt, which records
  \<open>last_rfid_init\<close> when it succeeds and swallows its own exception when it fails.
\<close>

definition initialize_rfid :: "rfid_env \<Rightarrow> rfid_state \<Rightarrow> rfid_state" where
  "initialize_rfid e st =
     (let st1 = st\<lparr>rfid_trace := rfid_trace st @ [Reinitialize (reinit_ok e)]\<rparr>
      in if reinit_ok e then st1\<lparr>last_rfid_init := Some (clock e)\<rparr> else st1)"

definition pause :: "rat \<Rightarrow> rfid_state \<Rightarrow> rfid_state" where
  "pause d st = st\<lparr>rfid_trace := rfid_trace st @ [Pause d]\<rparr>"

text \<open>The \<open>except Exception\<close> handler of the loop.\<close>

definition on_read_error :: "rfid_env \<Rightarrow> rfid_state \<Rightarrow> rfid_state" where
  "on_read_error e st =
     (let st1 = st\<lparr>consecutive_errors := consecutive_errors st + 1,
                   rfid_errors := rfid_errors st + 1\<rparr>
      in if consecutive_errors st1 < 5 then pause (1 / 2) st1
         else if consecutive_errors st1 < 20 then pause 1 st1
         else pause 2
                (if consecutive_errors st1 mod 20 = 0
                 then pause 2 (initialize_rfid e st1)
                 else st1))"

text \<open>One iteration of \<open>while True\<close>.\<close>

definition rfid_step :: "rfid_env \<Rightarrow> rfid_state \<Rightarrow> rfid_state" where
  "rfid_step e st =
     (let current_interval = read_interval st * (1 + of_nat (min (consecutive_errors st) 5));
          st1 = st\<lparr>rfid_reads_attempted := rfid_reads_attempted st + 1,
                   rfid_trace := rfid_trace st @ [Poll]\<rparr>
      in case poll_result e of
           ReadError \<Rightarrow> on_read_error e st1
         | CardId n \<Rightarrow>
             pause current_interval
               (st1\<lparr>card_queue := record_card (str_nat n) (clock e) (card_queue st1),
                    rfid_reads_successful := rfid_reads_successful st1 + 1,
                    last_successful_read := Some (clock e),
                    consecutive_errors := 0,
                    loop_last_successful_read := clock e,
                    read_interval := 1 / 20\<rparr>)
         | NoCard \<Rightarrow>
             pause current_interval
               (st1\<lparr>read_interval := min (read_interval st1 * (11 / 10)) (1 / 10)\<rparr>))"

text \<open>
  The loop never returns; its behaviour is the state after each finite prefix of the
  environment's outcomes.
\<close>

fun rfid_reader_loop :: "rfid_env list \<Rightarrow> rfid_state \<Rightarrow> rfid_state" where
  "rfid_reader_loop [] st = st"
| "rfid_reader_loop (e # es) st = rfid_reader_loop es (rfid_step e st)"

definition rfid_start :: "instant \<Rightarrow> rfid_state" where
  "rfid_start t0 =
     \<lparr>card_queue = [], consecutive_errors = 0, loop_last_successful_read = t0,
      read_interval = 1 / 10, rfid_reads_attempted = 0, rfid_reads_successful = 0,
      rfid_errors = 0, last_successful_read = None, last_rfid_init = None,
      rfid_trace = []\<rparr>"

definition reinit_attempts :: "rfid_state \<Rightarrow> nat" where
  "reinit_attempts st = length (filter (\<lambda>ev. ev = Reinitialize True \<or> ev = Reinitialize False) (rfid_trace st))"

definition polls :: "rfid_state \<Rightarrow> nat" where
  "polls st = length (filter (\<lambda>ev. ev = Poll) (rfid_trace st))"

definition failing :: "bool \<Rightarrow> instant \<Rightarrow> rfid_env" where
  "failing ok t = \<lparr>poll_result = ReadError, clock = t, reinit_ok = ok\<rparr>"

subsection \<open>Lockers, assignments and transactions\<close>

record assignment =
  a_locker_id :: string
  a_transaction_id :: string

datatype status = Pending | Processing | Completed

record transaction =
  t_transaction_id :: string
  t_card_id :: string
  t_locker_id :: string
  t_wash_type :: "wash_type option"
  t_status :: status
  t_drop_off_time :: instant
  t_pickup_time :: "instant option"
  t_estimated_completion_time :: "instant option"
  t_device_info :: "(string \<times> string) list"

text \<open>\<open>self.data\<close>: the three collections that are persisted together.\<close>

record locker_data =
  active_cards :: "(string \<times> assignment) list"
  transactions :: "transaction list"
  available_lockers :: "string list"

datatype gpio_level = LOW | HIGH

datatype actuator_event = GpioOutput nat gpio_level | Hold nat

text \<open>
  The system object. \<open>db_file\<close> is what the last successful \<open>save_data\<close> wrote,
  \<open>telemetry\<close> the posts the collector accepted (the action and the transaction
  posted), \<open>actuator\<close> the GPIO writes and hold delays in the order they happened.
\<close>

record system =
  config :: config
  relay_pins :: "(string \<times> nat) list"
  data :: locker_data
  server_wash_types :: "wash_type list option"
  db_file :: "locker_data option"
  telemetry :: "(string \<times> transaction) list"
  actuator :: "actuator_event list"

text \<open>A wash type as the remote catalogue sends it: any field may be missing.\<close>

record raw_wash_type =
  raw_id :: "jval option"
  raw_name :: "string option"
  raw_price :: "rat option"
  raw_estimated_time :: "duration option"

text \<open>
  The environment of one call: the clock, the uuid drawn, the catalogue's answers
  (\<open>Some\<close> of the \<open>wash_types\<close> list of a 200 response, \<open>None\<close> for any other outcome),
  whether the file write and the telemetry post succeed, and the interpreter's wording
  \<open>str(e)\<close> of an exception raised during the call.
\<close>

record env =
  now :: instant
  new_uuid :: string
  exception_text :: string
  wash_reply :: "raw_wash_type list option"
  name_lookup_reply :: "raw_wash_type list option"
  save_ok :: bool
  send_ok :: bool

text \<open>
  The estimated completion time computed in \<open>LockerTransaction.__init__\<close>:
  \<open>datetime.now() + timedelta(minutes=wash_type['estimated_time'])\<close> when the wash
  type has the key, with the exceptions the two library calls raise.
\<close>

definition estimated_completion :: "instant \<Rightarrow> wash_type option \<Rightarrow> py_error + instant option" where
  "estimated_completion t wt =
     (case wt of
        None \<Rightarrow> Inr None
      | Some w \<Rightarrow>
          (case wt_estimated_time w of
             None \<Rightarrow> Inr None
           | Some NotANumber \<Rightarrow> Inl TypeError
           | Some (Minutes minutes_to_add) \<Rightarrow>
               (case timedelta_minutes minutes_to_add of
                  Inl err \<Rightarrow> Inl err
                | Inr delta \<Rightarrow>
                    (case datetime_add t delta of
                       Inl err \<Rightarrow> Inl err
                     | Inr completion \<Rightarrow> Inr (Some completion)))))"

definition LockerTransaction ::
    "env \<Rightarrow> string \<Rightarrow> string \<Rightarrow> wash_type option \<Rightarrow> py_error + transaction" where
  "LockerTransaction e card_id locker_id wt =
     (case estimated_completion (now e) wt of
        Inl err \<Rightarrow> Inl err
      | Inr completion \<Rightarrow>
          Inr \<lparr>t_transaction_id = new_uuid e,
               t_card_id = card_id,
               t_locker_id = locker_id,
               t_wash_type = wt,
               t_status = Pending,
               t_drop_off_time = now e,
               t_pickup_time = None,
               t_estimated_completion_time = completion,
               t_device_info = []\<rparr>)"

definition save_data :: "env \<Rightarrow> system \<Rightarrow> system" where
  "save_data e s = (if save_ok e then s\<lparr>db_file := Some (data s)\<rparr> else s)"

definition send_to_server :: "env \<Rightarrow> string \<Rightarrow> transaction \<Rightarrow> system \<Rightarrow> system \<times> bool" where
  "send_to_server e action payload s =
     (if send_ok e then (s\<lparr>telemetry := telemetry s @ [(action, payload)]\<rparr>, True)
      else (s, False))"

definition unlock_locker :: "string \<Rightarrow> system \<Rightarrow> system \<times> bool" where
  "unlock_locker locker_id s =
     (case map_of (relay_pins s) locker_id of
        None \<Rightarrow> (s, False)
      | Some relay_pin \<Rightarrow>
          (s\<lparr>actuator := actuator s @
                [GpioOutput relay_pin LOW,
                 Hold (unlock_duration (config s)),
                 GpioOutput relay_pin HIGH]\<rparr>,
           True))"

definition normalise_wash_type :: "raw_wash_type \<Rightarrow> wash_type" where
  "normalise_wash_type r =
     \<lparr>wt_id = (case raw_id r of Some i \<Rightarrow> i | None \<Rightarrow> JInt 0),
      wt_name = (case raw_name r of Some n \<Rightarrow> n | None \<Rightarrow> ''Unknown''),
      wt_price = (case raw_price r of Some p \<Rightarrow> p | None \<Rightarrow> 0),
      wt_estimated_time = raw_estimated_time r\<rparr>"

definition cached_or_local :: "system \<Rightarrow> wash_type list" where
  "cached_or_local s =
     (case server_wash_types s of
        Some (w # ws) \<Rightarrow> w # ws
      | _ \<Rightarrow> wash_types (config s))"

definition get_wash_types :: "raw_wash_type list option \<Rightarrow> system \<Rightarrow> system \<times> wash_type list" where
  "get_wash_types reply s =
     (case reply of
        Some (r # rs) \<Rightarrow>
          (let fetched = map normalise_wash_type (r # rs)
           in (s\<lparr>server_wash_types := Some fetched\<rparr>, fetched))
      | _ \<Rightarrow> (s, cached_or_local s))"

definition check_card_already_assigned :: "locker_data \<Rightarrow> string \<Rightarrow> bool" where
  "check_card_already_assigned d card_id =
     (let card_id_str = strip card_id;
          card_id_lower = lower card_id_str
      in if card_id_str \<in> set (map fst (active_cards d)) then True
         else if list_ex (\<lambda>active_card. lower active_card = card_id_lower)
                   (map fst (active_cards d)) then True
         else if list_ex (\<lambda>t. t_status t \<noteq> Completed
                               \<and> lower (strip (t_card_id t)) = card_id_lower)
                   (transactions d) then True
         else False)"

text \<open>
  \<open>assign_card_to_locker\<close>. The one statement of its \<open>try\<close> body that can raise on the
  modelled inputs is the construction of the transaction, before any mutation; the
  \<open>except\<close> branch then returns ``System error'' with the exception's text.
  \<open>remove1\<close> is the guarded \<open>remove\<close>: it drops the first occurrence, if any.
\<close>

definition assign_card_to_locker ::
    "env \<Rightarrow> string \<Rightarrow> string \<Rightarrow> jval \<Rightarrow> system \<Rightarrow> system \<times> bool \<times> string" where
  "assign_card_to_locker e raw_card_id locker_id wash_type_id s =
     (let card_id = strip raw_card_id
      in if check_card_already_assigned (data s) card_id
         then (s, False, ''Card already assigned to another locker'')
         else if locker_id \<notin> set (available_lockers (data s))
         then (s, False, ''Locker not available'')
         else
           (let (s1, catalogue) = get_wash_types (wash_reply e) s
            in case find (\<lambda>wt. wt_id wt = wash_type_id) catalogue of
                 None \<Rightarrow> (s1, False, ''Invalid wash type'')
               | Some selected_wash_type \<Rightarrow>
                   (case LockerTransaction e card_id locker_id (Some selected_wash_type) of
                      Inl err \<Rightarrow> (s1, False, ''System error: '' @ exception_text e)
                    | Inr tx \<Rightarrow>
                        (let d = data s1;
                             d1 = d\<lparr>active_cards :=
                                      AList.update card_id
                                        \<lparr>a_locker_id = locker_id,
                                         a_transaction_id = t_transaction_id tx\<rparr>
                                        (active_cards d)\<rparr>;
                             d2 = d1\<lparr>available_lockers :=
                                       remove1 locker_id (available_lockers d1)\<rparr>;
                             d3 = d2\<lparr>transactions := transactions d2 @ [tx]\<rparr>;
                             s2 = save_data e (s1\<lparr>data := d3\<rparr>);
                             (s3, sent) = send_to_server e ''new_transaction'' tx s2
                         in (s3, True,
                             ''Card assigned to locker '' @ locker_id @ '' with ''
                               @ wt_name selected_wash_type @ '' service'')))))"

subsection \<open>The drop-off route\<close>

text \<open>
  The \<open>wash_type\<close> field of a drop-off request: an object carrying an \<open>id\<close>, or a bare
  integer or string. Identifiers are JSON integers or strings.
\<close>

datatype wash_param = WashDict jval | WashValue jval

record request =
  req_card_id :: "string option"
  req_wash_type :: "wash_param option"

record response =
  success :: bool
  message :: string
  resp_locker_id :: "string option"

text \<open>Python truthiness of an identifier, as \<open>if not wash_type_id\<close> reads it.\<close>

fun truthy :: "jval \<Rightarrow> bool" where
  "truthy (JInt n) = (n \<noteq> 0)"
| "truthy (JStr x) = (x \<noteq> [])"

text \<open>
  The three-way resolution of the request's wash type; \<open>Inl x\<close> is the early return
  ``Invalid wash type: x''. The decimal form of an integer holds no space, so an integer
  always takes the second branch.
\<close>

definition resolve_wash_type_id :: "env \<Rightarrow> wash_param \<Rightarrow> system \<Rightarrow> system \<times> (string + jval)" where
  "resolve_wash_type_id e wash_type_param s =
     (case wash_type_param of
        WashDict i \<Rightarrow> (s, Inr i)
      | WashValue (JInt n) \<Rightarrow> (s, Inr (JInt n))
      | WashValue (JStr x) \<Rightarrow>
          if CHR '' '' \<notin> set x then (s, Inr (JStr x))
          else
            (let (s1, catalogue) = get_wash_types (name_lookup_reply e) s
             in case find (\<lambda>wt. wt_name wt = x) catalogue of
                  Some wt \<Rightarrow> if truthy (wt_id wt) then (s1, Inr (wt_id wt)) else (s1, Inl x)
                | None \<Rightarrow> (s1, Inl x)))"

definition failed :: "string \<Rightarrow> response" where
  "failed msg = \<lparr>success = False, message = msg, resp_locker_id = None\<rparr>"

definition drop_off :: "env \<Rightarrow> request \<Rightarrow> system \<Rightarrow> system \<times> response" where
  "drop_off e req s =
     (case (req_card_id req, req_wash_type req) of
        (Some raw_card_id, Some wash_type_param) \<Rightarrow>
          (let card_id = strip raw_card_id
           in if check_card_already_assigned (data s) card_id
              then
                (let locker_id =
                       (case find (\<lambda>(active_card, info). lower active_card = lower card_id)
                               (active_cards (data s)) of
                          Some (active_card, info) \<Rightarrow> a_locker_id info
                        | None \<Rightarrow> ''unknown'')
                 in (s, failed (''This card already has clothes in locker '' @ locker_id
                                 @ ''. Please use the pickup process first.'')))
              else
                (case available_lockers (data s) of
                   [] \<Rightarrow> (s, failed ''No lockers available'')
                 | locker_id # others \<Rightarrow>
                     (case resolve_wash_type_id e wash_type_param s of
                        (s1, Inl x) \<Rightarrow> (s1, failed (''Invalid wash type: '' @ x))
                      | (s1, Inr wash_type_id) \<Rightarrow>
                          (let (s2, ok, msg) =
                                 assign_card_to_locker e raw_card_id locker_id wash_type_id s1
                           in if ok
                              then (let (s3, unlocked) = unlock_locker locker_id s2
                                    in (s3, \<lparr>success = True, message = msg,
                                             resp_locker_id = Some locker_id\<rparr>))
                              else (s2, failed msg)))))
      | _ \<Rightarrow> (s, failed ''Missing required fields''))"

subsection \<open>Pickup\<close>

text \<open>
  Resolution of the presented card against \<open>active_cards\<close>: the exact key, else the
  first key equal to it up to case. The entry is returned with its key, which is what
  the later \<open>self.data["active_cards"][card_id_str]\<close> reads.
\<close>

definition resolve_card :: "locker_data \<Rightarrow> string \<Rightarrow> (string \<times> assignment) option" where
  "resolve_card d card_id_str =
     (case map_of (active_cards d) card_id_str of
        Some locker_info \<Rightarrow> Some (card_id_str, locker_info)
      | None \<Rightarrow>
          find (\<lambda>(active_card_id, locker_info). lower active_card_id = lower card_id_str)
            (active_cards d))"

text \<open>\<open>for i, trans in enumerate(...)\<close> up to its first hit.\<close>

fun first_index :: "('a \<Rightarrow> bool) \<Rightarrow> 'a list \<Rightarrow> nat option" where
  "first_index P [] = None"
| "first_index P (x # xs) = (if P x then Some 0 else map_option Suc (first_index P xs))"

definition complete_transaction :: "instant \<Rightarrow> transaction \<Rightarrow> transaction" where
  "complete_transaction t tr = tr\<lparr>t_status := Completed, t_pickup_time := Some t\<rparr>"

definition complete_at :: "nat \<Rightarrow> instant \<Rightarrow> locker_data \<Rightarrow> locker_data" where
  "complete_at i t d =
     d\<lparr>transactions := (transactions d)[i := complete_transaction t (transactions d ! i)]\<rparr>"

text \<open>Drop the card's entry and put the locker back unless it is already listed.\<close>

definition release :: "string \<Rightarrow> string \<Rightarrow> locker_data \<Rightarrow> locker_data" where
  "release card_id_str locker_id d =
     d\<lparr>active_cards := AList.delete card_id_str (active_cards d),
       available_lockers :=
         (if locker_id \<in> set (available_lockers d) then available_lockers d
          else available_lockers d @ [locker_id])\<rparr>"

definition process_pickup :: "env \<Rightarrow> string \<Rightarrow> system \<Rightarrow> system \<times> bool \<times> string" where
  "process_pickup e card_id s =
     (case resolve_card (data s) card_id of
        None \<Rightarrow> (s, False, ''Card not associated with any locker'')
      | Some (card_id_str, locker_info) \<Rightarrow>
          (let locker_id = a_locker_id locker_info;
               transaction_id = a_transaction_id locker_info
           in case first_index (\<lambda>tr. t_transaction_id tr = transaction_id)
                     (transactions (data s)) of
                Some i \<Rightarrow>
                  (let s1 = s\<lparr>data := complete_at i (now e) (data s)\<rparr>;
                       transaction_data = transactions (data s1) ! i;
                       (s2, unlocked) = unlock_locker locker_id s1;
                       s3 = s2\<lparr>data := release card_id_str locker_id (data s2)\<rparr>;
                       s4 = save_data e s3;
                       (s5, sent) = send_to_server e ''pickup_complete'' transaction_data s4
                   in (s5, True, ''Clothes picked up from locker '' @ locker_id))
              | None \<Rightarrow>
                  (case first_index (\<lambda>tr. t_card_id tr = card_id_str
                                              \<and> t_status tr \<noteq> Completed)
                          (transactions (data s)) of
                     Some i \<Rightarrow>
                       (let fallback_locker_id = t_locker_id (transactions (data s) ! i);
                            s1 = s\<lparr>data := complete_at i (now e) (data s)\<rparr>;
                            (s2, unlocked) = unlock_locker fallback_locker_id s1;
                            s3 = s2\<lparr>data := release card_id_str fallback_locker_id (data s2)\<rparr>;
                            s4 = save_data e s3
                        in (s4, True, ''Clothes picked up from locker '' @ fallback_locker_id
                                       @ '' (fallback)''))
                   | None \<Rightarrow>
                       (case map_of (active_cards (data s)) card_id_str of
                          Some entry \<Rightarrow>
                            (let reset_locker_id = a_locker_id entry;
                                 s1 = s\<lparr>data := release card_id_str reset_locker_id (data s)\<rparr>;
                                 s2 = save_data e s1
                             in (s2, True, ''Locker '' @ reset_locker_id @ '' unlocked and reset''))
                        | None \<Rightarrow> (s, False, ''Transaction not found'')))))"

subsection \<open>Reachable states\<close>

text \<open>
  The system as constructed over the persisted data \<open>d\<close>, and the data \<open>load_data\<close>
  creates when there is no database file: every configured locker free, no assignment,
  no transaction.
\<close>

definition loaded_system :: "config \<Rightarrow> locker_data \<Rightarrow> system" where
  "loaded_system c d =
     \<lparr>config = c, relay_pins = cfg_relay_pins c, data = d,
      server_wash_types = None, db_file = Some d,
      telemetry = [], actuator = []\<rparr>"

definition initial_data :: "config \<Rightarrow> locker_data" where
  "initial_data c =
     \<lparr>active_cards = [], transactions = [], available_lockers = map fst (cfg_relay_pins c)\<rparr>"

definition initial_system :: "config \<Rightarrow> system" where
  "initial_system c = loaded_system c (initial_data c)"

text \<open>
  The states reachable from an initial state, one with every configured locker free and
  no active assignment (whatever its transaction history), by calls of the three
  operations in any environment.
\<close>

inductive reachable :: "config \<Rightarrow> system \<Rightarrow> bool" for c :: config where
  start:
    "active_cards d = [] \<Longrightarrow> distinct (available_lockers d) \<Longrightarrow>
     set (available_lockers d) = set (map fst (cfg_relay_pins c)) \<Longrightarrow>
     reachable c (loaded_system c d)"
| after_assign:
    "reachable c s \<Longrightarrow>
     reachable c (fst (assign_card_to_locker e card_id locker_id wash_type_id s))"
| after_drop_off: "reachable c s \<Longrightarrow> reachable c (fst (drop_off e req s))"
| after_pickup: "reachable c s \<Longrightarrow> reachable c (fst (process_pickup e card_id s))"

text \<open>
  The lockers referenced by the active assignments, and the consistency condition
  that every reachable state satisfies: the free and the occupied lockers partition
  the configured ones, no two entries share a card (not even up to case), and every
  entry's transaction is on record.
\<close>

definition occupied :: "locker_data \<Rightarrow> string list" where
  "occupied d = map (\<lambda>(card_id, info). a_locker_id info) (active_cards d)"

definition consistent :: "string list \<Rightarrow> locker_data \<Rightarrow> bool" where
  "consistent lockers d \<longleftrightarrow>
     distinct (available_lockers d @ occupied d)
     \<and> set (available_lockers d @ occupied d) = set lockers
     \<and> distinct (map fst (active_cards d))
     \<and> inj_on lower (set (map fst (active_cards d)))
     \<and> (\<forall>(card_id, info) \<in> set (active_cards d).
           a_transaction_id info \<in> set (map t_transaction_id (transactions d)))"

text \<open>
  The data after a successful assignment of \<open>locker_id\<close> to \<open>card_id\<close> under the
  transaction \<open>tx\<close>.
\<close>

definition assigned :: "string \<Rightarrow> string \<Rightarrow> transaction \<Rightarrow> locker_data \<Rightarrow> locker_data" where
  "assigned card_id locker_id tx d =
     \<lparr>active_cards =
        AList.update card_id
          \<lparr>a_locker_id = locker_id, a_transaction_id = t_transaction_id tx\<rparr>
          (active_cards d),
      transactions = transactions d @ [tx],
      available_lockers = remove1 locker_id (available_lockers d)\<rparr>"

text \<open>Concrete inputs used to exercise the theorems below.\<close>

definition env0 :: env where
  "env0 = \<lparr>now = 0, new_uuid = ''tx-1'', exception_text = ''date value out of range'',
           wash_reply = None, name_lookup_reply = None, save_ok = True, send_ok = True\<rparr>"




text \<open>Data in which two active cards differ by case only.\<close>

definition pending_for :: "string \<Rightarrow> string \<Rightarrow> string \<Rightarrow> transaction" where
  "pending_for tid card_id locker_id =
     \<lparr>t_transaction_id = tid, t_card_id = card_id, t_locker_id = locker_id,
      t_wash_type = None, t_status = Pending, t_drop_off_time = 0, t_pickup_time = None,
      t_estimated_completion_time = None, t_device_info = []\<rparr>"

definition drifted :: system where
  "drifted =
     loaded_system DEFAULT_CONFIG
       \<lparr>active_cards =
          [(''A1'', \<lparr>a_locker_id = ''1'', a_transaction_id = ''tx-1''\<rparr>),
           (''a1'', \<lparr>a_locker_id = ''2'', a_transaction_id = ''tx-2''\<rparr>)],
        transactions = [pending_for ''tx-1'' ''A1'' ''1'', pending_for ''tx-2'' ''a1'' ''2''],
        available_lockers = []\<rparr>"

definition request_A1 :: request where
  "request_A1 = \<lparr>req_card_id = Some ''A1'', req_wash_type = Some (WashValue (JInt 1))\<rparr>"

definition after_A1 :: system where
  "after_A1 = fst (drop_off env0 request_A1 (initial_system DEFAULT_CONFIG))"

definition orphaned_A1 :: system where
  "orphaned_A1 =
     (initial_system DEFAULT_CONFIG)
       \<lparr>data := \<lparr>active_cards = [(''A1'', \<lparr>a_locker_id = ''1'', a_transaction_id = ''tx-lost''\<rparr>)],
                 transactions = [],
                 available_lockers = [''2'']\<rparr>\<rparr>"

section \<open>The read cache\<close>

lemma refresh_duplicate_read_count:
  "refresh_duplicate cid t q = Some q' \<Longrightarrow> map read_count q' = map read_count q"
  by (induction q arbitrary: q') (auto split: if_splits)

lemma refresh_duplicate_None:
  "refresh_duplicate cid t q = None
     \<longleftrightarrow> (\<forall>c \<in> set q. \<not> (c_card_id c = cid \<and> total_seconds (t - timestamp c) < 2))"
  by (induction q) auto

lemma record_card_new_entry:
  assumes "refresh_duplicate cid t q = None" and "length q < 10"
  shows "record_card cid t q = q @ [\<lparr>c_card_id = cid, timestamp = t, read_count = 1\<rparr>]"
  using assms by (simp add: record_card_def)

text \<open>
  C1 (duplicate suppression). The claim asks that a second presentation of a card within
  two seconds refreshes the entry's timestamp and raises its \<open>read_count\<close> to 2. The loop
  refreshes the timestamp only: after the reader has returned card 1234 at time 0 and
  again one second later, the cache holds one entry whose \<open>read_count\<close> is still 1.
\<close>

theorem rfid_duplicate_read_count_not_incremented:
  "card_queue (rfid_reader_loop
       [\<lparr>poll_result = CardId 1234, clock = 0, reinit_ok = True\<rparr>,
        \<lparr>poll_result = CardId 1234, clock = seconds 1, reinit_ok = True\<rparr>]
       (rfid_start 0))
   = [\<lparr>c_card_id = ''1234'', timestamp = seconds 1, read_count = 1\<rparr>]"
  by code_simp

lemma within_window_iff:
  "within_window cfg t c \<longleftrightarrow> total_seconds (t - timestamp c) \<le> validity_window cfg"
proof (cases "card_validity_window cfg")
  case None
  have "(rat_of_int (t - timestamp c) / 1000000 \<le> 30) = (rat_of_int (t - timestamp c) \<le> 30000000)"
    by (simp add: pos_divide_le_eq)
  also have "\<dots> = (t - timestamp c \<le> 30000000)"
    by linarith
  finally show ?thesis
    using None by (simp add: within_window_def validity_window_def total_seconds_def)
next
  case (Some w)
  then show ?thesis
    by (simp add: within_window_def validity_window_def total_seconds_def pos_divide_le_eq)
qed

lemma multi_read_scan_find:
  "i \<le> length q \<Longrightarrow>
   multi_read_scan cfg t q i
     = find (\<lambda>c. read_count c > 1 \<and> within_window cfg t c) (rev (take i q))"
proof (induction i)
  case 0
  then show ?case by simp
next
  case (Suc i)
  then have "i < length q" by simp
  then have "take (Suc i) q = take i q @ [q ! i]"
    by (simp add: take_Suc_conv_app_nth)
  with Suc show ?case
    by (simp add: within_window_iff Let_def)
qed

lemma get_last_card_refines: "get_last_card cfg t q = get_last_card_spec cfg t q"
proof (cases q rule: rev_cases)
  case Nil
  then show ?thesis by (simp add: get_last_card_def get_last_card_spec_def)
next
  case (snoc ys y)
  then show ?thesis
    by (simp add: get_last_card_def get_last_card_spec_def multi_read_scan_find
        within_window_iff Let_def del: multi_read_scan.simps split: option.splits)
qed

text \<open>
  C2 (ranking). For every configuration, time and cache, \<open>get_last_card\<close> returns what the
  specification describes: scanning from the newest position to the oldest, the first
  entry with \<open>read_count > 1\<close> whose age is within the validity window; if there is none,
  the most recent entry provided its age is within the window; otherwise nothing. The
  window is the configured number of seconds, and 30 seconds when the configuration does
  not set it. With a window of 30 seconds, an entry read twice 10 seconds ago and an entry
  read once 1 second ago, the entry read twice is returned.
\<close>

theorem get_last_card_ranking:
  "get_last_card cfg t q = get_last_card_spec cfg t q
   \<and> validity_window (cfg\<lparr>card_validity_window := Some w\<rparr>) = w
   \<and> validity_window (cfg\<lparr>card_validity_window := None\<rparr>) = 30
   \<and> get_last_card (cfg\<lparr>card_validity_window := Some 30\<rparr>) t
        [\<lparr>c_card_id = ''A1'', timestamp = t - 10000000, read_count = 2\<rparr>,
         \<lparr>c_card_id = ''B2'', timestamp = t - 1000000, read_count = 1\<rparr>]
      = Some \<lparr>c_card_id = ''A1'', timestamp = t - 10000000, read_count = 2\<rparr>
   \<and> get_last_card (cfg\<lparr>card_validity_window := None\<rparr>) t
        [\<lparr>c_card_id = ''A1'', timestamp = t - 10000000, read_count = 2\<rparr>,
         \<lparr>c_card_id = ''B2'', timestamp = t - 1000000, read_count = 1\<rparr>]
      = Some \<lparr>c_card_id = ''A1'', timestamp = t - 10000000, read_count = 2\<rparr>"
proof -
  have spec30: "get_last_card_spec (cfg\<lparr>card_validity_window := Some 30\<rparr>) t
        [\<lparr>c_card_id = ''A1'', timestamp = t - 10000000, read_count = 2\<rparr>,
         \<lparr>c_card_id = ''B2'', timestamp = t - 1000000, read_count = 1\<rparr>]
      = Some \<lparr>c_card_id = ''A1'', timestamp = t - 10000000, read_count = 2\<rparr>"
    by (simp add: get_last_card_spec_def within_window_def)
  have spec_default: "get_last_card_spec (cfg\<lparr>card_validity_window := None\<rparr>) t
        [\<lparr>c_card_id = ''A1'', timestamp = t - 10000000, read_count = 2\<rparr>,
         \<lparr>c_card_id = ''B2'', timestamp = t - 1000000, read_count = 1\<rparr>]
      = Some \<lparr>c_card_id = ''A1'', timestamp = t - 10000000, read_count = 2\<rparr>"
    by (simp add: get_last_card_spec_def within_window_def)
  show ?thesis
    by (simp only: get_last_card_refines spec30 spec_default)
       (simp add: validity_window_def)
qed

text \<open>
  With a configured window of 5 seconds the entry read twice 10 seconds ago is too old
  and the entry read once 1 second ago is returned; with 30 seconds the entry read twice
  is; with a window of 0 seconds nothing is.
\<close>

theorem get_last_card_ranking_witness:
  "get_last_card (DEFAULT_CONFIG\<lparr>card_validity_window := Some 5\<rparr>) 100000000
     [\<lparr>c_card_id = ''A1'', timestamp = 90000000, read_count = 2\<rparr>,
      \<lparr>c_card_id = ''B2'', timestamp = 99000000, read_count = 1\<rparr>]
   = Some \<lparr>c_card_id = ''B2'', timestamp = 99000000, read_count = 1\<rparr>
   \<and> get_last_card DEFAULT_CONFIG 100000000
     [\<lparr>c_card_id = ''A1'', timestamp = 90000000, read_count = 2\<rparr>,
      \<lparr>c_card_id = ''B2'', timestamp = 99000000, read_count = 1\<rparr>]
   = Some \<lparr>c_card_id = ''A1'', timestamp = 90000000, read_count = 2\<rparr>
   \<and> get_last_card (DEFAULT_CONFIG\<lparr>card_validity_window := Some 0\<rparr>) 100000000
     [\<lparr>c_card_id = ''A1'', timestamp = 90000000, read_count = 2\<rparr>,
      \<lparr>c_card_id = ''B2'', timestamp = 99000000, read_count = 1\<rparr>]
   = None"
proof -
  let ?q = "[\<lparr>c_card_id = ''A1'', timestamp = 90000000, read_count = 2\<rparr>,
      \<lparr>c_card_id = ''B2'', timestamp = 99000000, read_count = 1\<rparr>]"
  have a: "get_last_card_spec (DEFAULT_CONFIG\<lparr>card_validity_window := Some 5\<rparr>) 100000000 ?q
      = Some \<lparr>c_card_id = ''B2'', timestamp = 99000000, read_count = 1\<rparr>"
    by (simp add: get_last_card_spec_def within_window_def DEFAULT_CONFIG_def)
  have b: "get_last_card_spec DEFAULT_CONFIG 100000000 ?q
      = Some \<lparr>c_card_id = ''A1'', timestamp = 90000000, read_count = 2\<rparr>"
    by (simp add: get_last_card_spec_def within_window_def DEFAULT_CONFIG_def)
  have c: "get_last_card_spec (DEFAULT_CONFIG\<lparr>card_validity_window := Some 0\<rparr>) 100000000 ?q
      = None"
    by (simp add: get_last_card_spec_def within_window_def DEFAULT_CONFIG_def)
  from a b c
    get_last_card_ranking[where cfg="DEFAULT_CONFIG\<lparr>card_validity_window := Some 5\<rparr>"
      and t=100000000 and q="?q"]
    get_last_card_ranking[where cfg=DEFAULT_CONFIG and t=100000000 and q="?q"]
    get_last_card_ranking[where cfg="DEFAULT_CONFIG\<lparr>card_validity_window := Some 0\<rparr>"
      and t=100000000 and q="?q"]
  show ?thesis by simp
qed

section \<open>The detector's fault recovery\<close>

lemma error_step_trace:
  assumes "poll_result e = ReadError"
  shows "rfid_trace (rfid_step e st) =
           rfid_trace st @
             (if Suc (consecutive_errors st) < 5 then [Poll, Pause (1 / 2)]
              else if Suc (consecutive_errors st) < 20 then [Poll, Pause 1]
              else if Suc (consecutive_errors st) mod 20 = 0
                   then [Poll, Reinitialize (reinit_ok e), Pause 2, Pause 2]
                   else [Poll, Pause 2])"
    and "consecutive_errors (rfid_step e st) = Suc (consecutive_errors st)"
  using assms
  by (simp_all add: rfid_step_def on_read_error_def pause_def initialize_rfid_def Let_def)

lemma step_polls: "polls (rfid_step e st) = Suc (polls st)"
  by (cases "poll_result e")
     (simp_all add: polls_def rfid_step_def on_read_error_def pause_def initialize_rfid_def Let_def)

lemma loop_polls: "polls (rfid_reader_loop es st) = polls st + length es"
  by (induction es arbitrary: st) (simp_all add: step_polls)

lemma multiple_of_20_not_below: "Suc k mod 20 = 0 \<Longrightarrow> \<not> Suc k < 20"
  by presburger

lemma error_step_reinits:
  assumes "poll_result e = ReadError"
  shows "reinit_attempts (rfid_step e st) =
           reinit_attempts st + (if Suc (consecutive_errors st) mod 20 = 0 then 1 else 0)"
  using error_step_trace(1)[OF assms, of st] multiple_of_20_not_below[of "consecutive_errors st"]
  by (cases "reinit_ok e") (auto simp add: reinit_attempts_def)

lemma div20_step: "Suc k div 20 = k div 20 + (if Suc k mod 20 = 0 then 1 else 0)"
  by (simp add: div_Suc)

lemma error_run:
  assumes "\<forall>e \<in> set es. poll_result e = ReadError"
  shows "consecutive_errors (rfid_reader_loop es st) = consecutive_errors st + length es
       \<and> reinit_attempts (rfid_reader_loop es st) + consecutive_errors st div 20
           = reinit_attempts st + (consecutive_errors st + length es) div 20"
  using assms
proof (induction es arbitrary: st)
  case Nil
  then show ?case by simp
next
  case (Cons e es)
  then have e: "poll_result e = ReadError" and rest: "\<forall>x \<in> set es. poll_result x = ReadError"
    by simp_all
  from Cons.IH[OF rest, of "rfid_step e st"]
  show ?case
    by (simp add: error_step_trace(2)[OF e] error_step_reinits[OF e] div20_step)
qed

lemma error_run_from_start:
  assumes "\<forall>e \<in> set es. poll_result e = ReadError"
  shows "reinit_attempts (rfid_reader_loop es (rfid_start t0)) = length es div 20"
    and "consecutive_errors (rfid_reader_loop es (rfid_start t0)) = length es"
  using error_run[OF assms, of "rfid_start t0"]
  by (simp_all add: rfid_start_def reinit_attempts_def)

lemma card_step:
  assumes "poll_result e = CardId n"
  shows "consecutive_errors (rfid_step e st) = 0"
    and "last_successful_read (rfid_step e st) = Some (clock e)"
    and "loop_last_successful_read (rfid_step e st) = clock e"
  using assms by (simp_all add: rfid_step_def pause_def Let_def)

lemma no_card_step: "poll_result e = NoCard \<Longrightarrow> consecutive_errors (rfid_step e st) = consecutive_errors st"
  by (simp add: rfid_step_def pause_def Let_def)

lemma reaching_multiple_of_20:
  assumes "consecutive_errors (rfid_step e st) \<noteq> consecutive_errors st"
    and "0 < consecutive_errors (rfid_step e st)"
    and "consecutive_errors (rfid_step e st) mod 20 = 0"
  shows "rfid_trace (rfid_step e st)
           = rfid_trace st @ [Poll, Reinitialize (reinit_ok e), Pause 2, Pause 2]"
proof (cases "poll_result e")
  case ReadError
  with assms(3) have m: "Suc (consecutive_errors st) mod 20 = 0"
    by (simp add: error_step_trace(2))
  with multiple_of_20_not_below[OF m] show ?thesis
    by (simp add: error_step_trace(1)[OF ReadError])
next
  case NoCard
  with assms(1) show ?thesis by (simp add: no_card_step)
next
  case (CardId n)
  with assms(2) show ?thesis by (simp add: card_step(1))
qed

text \<open>
  C7 (fault recovery). An iteration that brings the consecutive-error counter to a
  positive multiple of 20 polls, calls the reinitialisation once and pauses twice for two
  seconds. Starting from the loop's initial state, a run of read failures has made
  \<open>length es div 20\<close> reinitialisation attempts, so 19 failures make none and the 20th
  makes the first. Whatever the reinitialisations return, every further iteration polls
  again: the number of polls grows by one per iteration. An iteration that reads a card
  sets the counter to zero and records the time of the read.
\<close>

theorem rfid_reader_loop_recovery:
  "(consecutive_errors (rfid_step e st) \<noteq> consecutive_errors st
      \<and> 0 < consecutive_errors (rfid_step e st)
      \<and> consecutive_errors (rfid_step e st) mod 20 = 0
    \<longrightarrow> rfid_trace (rfid_step e st)
          = rfid_trace st @ [Poll, Reinitialize (reinit_ok e), Pause 2, Pause 2])
   \<and> ((\<forall>x \<in> set es. poll_result x = ReadError)
        \<longrightarrow> reinit_attempts (rfid_reader_loop es (rfid_start t0)) = length es div 20
          \<and> consecutive_errors (rfid_reader_loop es (rfid_start t0)) = length es)
   \<and> polls (rfid_reader_loop es st) = polls st + length es
   \<and> (poll_result e = CardId n
        \<longrightarrow> consecutive_errors (rfid_step e st) = 0
          \<and> last_successful_read (rfid_step e st) = Some (clock e)
          \<and> loop_last_successful_read (rfid_step e st) = clock e)"
proof (intro conjI impI)
  assume "consecutive_errors (rfid_step e st) \<noteq> consecutive_errors st
      \<and> 0 < consecutive_errors (rfid_step e st)
      \<and> consecutive_errors (rfid_step e st) mod 20 = 0"
  then show "rfid_trace (rfid_step e st)
          = rfid_trace st @ [Poll, Reinitialize (reinit_ok e), Pause 2, Pause 2]"
    by (simp add: reaching_multiple_of_20)
next
  assume "\<forall>x \<in> set es. poll_result x = ReadError"
  then show "reinit_attempts (rfid_reader_loop es (rfid_start t0)) = length es div 20"
    and "consecutive_errors (rfid_reader_loop es (rfid_start t0)) = length es"
    by (rule error_run_from_start)+
next
  show "polls (rfid_reader_loop es st) = polls st + length es"
    by (rule loop_polls)
next
  assume "poll_result e = CardId n"
  then show "consecutive_errors (rfid_step e st) = 0"
    and "last_successful_read (rfid_step e st) = Some (clock e)"
    and "loop_last_successful_read (rfid_step e st) = clock e"
    by (rule card_step)+
qed

theorem rfid_reader_loop_recovery_witness:
  "rfid_trace (rfid_step (failing False 0)
       (rfid_reader_loop (replicate 19 (failing False 0)) (rfid_start 0)))
     = rfid_trace (rfid_reader_loop (replicate 19 (failing False 0)) (rfid_start 0))
         @ [Poll, Reinitialize False, Pause 2, Pause 2]
   \<and> reinit_attempts (rfid_reader_loop (replicate 19 (failing False 0)) (rfid_start 0)) = 0
   \<and> reinit_attempts (rfid_reader_loop (replicate 20 (failing False 0)) (rfid_start 0)) = 1
   \<and> reinit_attempts (rfid_reader_loop (replicate 25 (failing False 0)) (rfid_start 0)) = 1
   \<and> polls (rfid_reader_loop (replicate 25 (failing False 0)) (rfid_start 0)) = 25
   \<and> consecutive_errors
        (rfid_step \<lparr>poll_result = CardId 7, clock = 5, reinit_ok = True\<rparr>
           (rfid_reader_loop (replicate 25 (failing False 0)) (rfid_start 0))) = 0"
proof -
  let ?st19 = "rfid_reader_loop (replicate 19 (failing False 0)) (rfid_start 0)"
  let ?st25 = "rfid_reader_loop (replicate 25 (failing False 0)) (rfid_start 0)"
  have ce19: "consecutive_errors ?st19 = 19"
    by code_simp
  have ce20: "consecutive_errors (rfid_step (failing False 0) ?st19) = 20"
    by code_simp
  have errs: "poll_result (failing False 0) = ReadError"
    by (simp add: failing_def)
  have p0: "polls (rfid_start 0) = 0"
    by (simp add: polls_def rfid_start_def)
  have a: "rfid_trace (rfid_step (failing False 0) ?st19)
     = rfid_trace ?st19 @ [Poll, Reinitialize False, Pause 2, Pause 2]"
    using rfid_reader_loop_recovery[of "failing False 0" ?st19 "[]" 0 0] ce19 ce20
    by (simp add: failing_def)
  have b: "reinit_attempts ?st19 = 0"
    using rfid_reader_loop_recovery[of "failing False 0" ?st19 "replicate 19 (failing False 0)" 0 0] errs
    by simp
  have c: "reinit_attempts (rfid_reader_loop (replicate 20 (failing False 0)) (rfid_start 0)) = 1"
    using rfid_reader_loop_recovery[of "failing False 0" ?st19 "replicate 20 (failing False 0)" 0 0] errs
    by simp
  have d: "reinit_attempts ?st25 = 1 \<and> polls ?st25 = 25"
    using rfid_reader_loop_recovery[of "failing False 0" "rfid_start 0" "replicate 25 (failing False 0)" 0 0] errs p0
    by simp
  have f: "consecutive_errors (rfid_step \<lparr>poll_result = CardId 7, clock = 5, reinit_ok = True\<rparr> ?st25) = 0"
    using rfid_reader_loop_recovery[of "\<lparr>poll_result = CardId 7, clock = 5, reinit_ok = True\<rparr>" ?st25 "[]" 0 7]
    by simp
  from a b c d f show ?thesis by simp
qed

section \<open>The actuator\<close>

text \<open>
  C10 (unlock guard). For a locker id that is not a key of the relay-pin map,
  \<open>unlock_locker\<close> returns \<open>False\<close> and leaves the system as it was: no GPIO write, no
  hold delay. For a key of the map it drives the pin low, holds for the configured
  duration, drives the pin high, and returns \<open>True\<close>.
\<close>

theorem unlock_locker_guard:
  "(locker_id \<notin> fst ` set (relay_pins s) \<longrightarrow> unlock_locker locker_id s = (s, False)) \<and>
   (locker_id \<in> fst ` set (relay_pins s) \<longrightarrow>
      (\<exists>pin. map_of (relay_pins s) locker_id = Some pin \<and>
         unlock_locker locker_id s =
           (s\<lparr>actuator := actuator s @
                 [GpioOutput pin LOW, Hold (unlock_duration (config s)), GpioOutput pin HIGH]\<rparr>,
            True)))"
proof (cases "map_of (relay_pins s) locker_id")
  case None
  then have "locker_id \<notin> fst ` set (relay_pins s)"
    by (simp add: map_of_eq_None_iff)
  with None show ?thesis by (simp add: unlock_locker_def)
next
  case (Some pin)
  then have "(locker_id, pin) \<in> set (relay_pins s)" by (rule map_of_SomeD)
  with Some show ?thesis by (force simp: unlock_locker_def)
qed

theorem unlock_locker_guard_witness:
  "unlock_locker ''9'' (initial_system DEFAULT_CONFIG) = (initial_system DEFAULT_CONFIG, False)
   \<and> unlock_locker ''2'' (initial_system DEFAULT_CONFIG)
       = ((initial_system DEFAULT_CONFIG)
            \<lparr>actuator := [GpioOutput 27 LOW, Hold 5, GpioOutput 27 HIGH]\<rparr>, True)"
proof -
  have pins: "relay_pins (initial_system DEFAULT_CONFIG) = [(''1'', 17), (''2'', 27)]"
    by (simp add: initial_system_def loaded_system_def DEFAULT_CONFIG_def)
  have a: "unlock_locker ''9'' (initial_system DEFAULT_CONFIG) = (initial_system DEFAULT_CONFIG, False)"
    using unlock_locker_guard[of "''9''" "initial_system DEFAULT_CONFIG"] pins by simp
  have b: "unlock_locker ''2'' (initial_system DEFAULT_CONFIG)
       = ((initial_system DEFAULT_CONFIG)
            \<lparr>actuator := [GpioOutput 27 LOW, Hold 5, GpioOutput 27 HIGH]\<rparr>, True)"
    using unlock_locker_guard[of "''2''" "initial_system DEFAULT_CONFIG"] pins
    by (simp add: initial_system_def loaded_system_def DEFAULT_CONFIG_def)
  from a b show ?thesis by simp
qed

section \<open>Frame and case lemmas for the assignment and pickup engines\<close>


lemma get_wash_types_frame:
  assumes "get_wash_types r s = (s1, cat)"
  shows "data s1 = data s" and "config s1 = config s" and "relay_pins s1 = relay_pins s"
    and "db_file s1 = db_file s" and "telemetry s1 = telemetry s" and "actuator s1 = actuator s"
  using assms
  by (auto simp: get_wash_types_def Let_def split: option.splits list.splits)

lemma save_data_frame:
  "data (save_data e s) = data s" "config (save_data e s) = config s"
  "relay_pins (save_data e s) = relay_pins s" "actuator (save_data e s) = actuator s"
  "telemetry (save_data e s) = telemetry s" "server_wash_types (save_data e s) = server_wash_types s"
  by (simp_all add: save_data_def)

lemma send_to_server_frame:
  "data (fst (send_to_server e a p s)) = data s" "config (fst (send_to_server e a p s)) = config s"
  "relay_pins (fst (send_to_server e a p s)) = relay_pins s"
  "actuator (fst (send_to_server e a p s)) = actuator s"
  "db_file (fst (send_to_server e a p s)) = db_file s"
  "server_wash_types (fst (send_to_server e a p s)) = server_wash_types s"
  by (simp_all add: send_to_server_def)

lemma unlock_locker_frame:
  "data (fst (unlock_locker l s)) = data s" "config (fst (unlock_locker l s)) = config s"
  "relay_pins (fst (unlock_locker l s)) = relay_pins s"
  "db_file (fst (unlock_locker l s)) = db_file s"
  "telemetry (fst (unlock_locker l s)) = telemetry s"
  "server_wash_types (fst (unlock_locker l s)) = server_wash_types s"
  by (simp_all add: unlock_locker_def split: option.splits)

lemma assign_already_assigned:
  "check_card_already_assigned (data s) (strip c) \<Longrightarrow>
   assign_card_to_locker e c l w s = (s, False, ''Card already assigned to another locker'')"
  by (simp add: assign_card_to_locker_def)

lemma assign_locker_unavailable:
  "\<not> check_card_already_assigned (data s) (strip c) \<Longrightarrow> l \<notin> set (available_lockers (data s)) \<Longrightarrow>
   assign_card_to_locker e c l w s = (s, False, ''Locker not available'')"
  by (simp add: assign_card_to_locker_def)

lemma assign_invalid_wash_type:
  assumes "\<not> check_card_already_assigned (data s) (strip c)"
    and "l \<in> set (available_lockers (data s))"
    and "find (\<lambda>wt. wt_id wt = w) (snd (get_wash_types (wash_reply e) s)) = None"
  shows "assign_card_to_locker e c l w s
           = (fst (get_wash_types (wash_reply e) s), False, ''Invalid wash type'')"
  using assms by (simp add: assign_card_to_locker_def split_beta)

lemma assign_system_error:
  assumes "\<not> check_card_already_assigned (data s) (strip c)"
    and "l \<in> set (available_lockers (data s))"
    and "find (\<lambda>wt. wt_id wt = w) (snd (get_wash_types (wash_reply e) s)) = Some sel"
    and "LockerTransaction e (strip c) l (Some sel) = Inl err"
  shows "assign_card_to_locker e c l w s
           = (fst (get_wash_types (wash_reply e) s), False,
              ''System error: '' @ exception_text e)"
  using assms by (simp add: assign_card_to_locker_def split_beta)

lemma assign_success:
  assumes "\<not> check_card_already_assigned (data s) (strip c)"
    and "l \<in> set (available_lockers (data s))"
    and "find (\<lambda>wt. wt_id wt = w) (snd (get_wash_types (wash_reply e) s)) = Some sel"
    and "LockerTransaction e (strip c) l (Some sel) = Inr tx"
  shows "snd (assign_card_to_locker e c l w s)
           = (True, ''Card assigned to locker '' @ l @ '' with '' @ wt_name sel @ '' service'')"
    and "data (fst (assign_card_to_locker e c l w s)) = assigned (strip c) l tx (data s)"
    and "actuator (fst (assign_card_to_locker e c l w s)) = actuator s"
    and "relay_pins (fst (assign_card_to_locker e c l w s)) = relay_pins s"
    and "config (fst (assign_card_to_locker e c l w s)) = config s"
proof -
  obtain s1 cat where g: "get_wash_types (wash_reply e) s = (s1, cat)"
    by (cases "get_wash_types (wash_reply e) s")
  note fr = get_wash_types_frame[OF g]
  from assms g have f: "find (\<lambda>wt. wt_id wt = w) cat = Some sel" by simp
  show "snd (assign_card_to_locker e c l w s)
           = (True, ''Card assigned to locker '' @ l @ '' with '' @ wt_name sel @ '' service'')"
    using assms(1,2,4) f g by (simp add: assign_card_to_locker_def Let_def split_beta)
  show "data (fst (assign_card_to_locker e c l w s)) = assigned (strip c) l tx (data s)"
    using assms(1,2,4) f g fr
    by (simp add: assign_card_to_locker_def Let_def split_beta save_data_frame
        send_to_server_frame assigned_def)
  show "actuator (fst (assign_card_to_locker e c l w s)) = actuator s"
    using assms(1,2,4) f g fr
    by (simp add: assign_card_to_locker_def Let_def split_beta save_data_frame send_to_server_frame)
  show "relay_pins (fst (assign_card_to_locker e c l w s)) = relay_pins s"
    using assms(1,2,4) f g fr
    by (simp add: assign_card_to_locker_def Let_def split_beta save_data_frame send_to_server_frame)
  show "config (fst (assign_card_to_locker e c l w s)) = config s"
    using assms(1,2,4) f g fr
    by (simp add: assign_card_to_locker_def Let_def split_beta save_data_frame send_to_server_frame)
qed

lemma LockerTransaction_id:
  "LockerTransaction e k l wt = Inr tx \<Longrightarrow> t_transaction_id tx = new_uuid e"
  by (auto simp: LockerTransaction_def split: sum.splits)

lemma assign_data_cases:
  "data (fst (assign_card_to_locker e c l w s)) = data s
   \<or> (\<exists>tx. \<not> check_card_already_assigned (data s) (strip c)
          \<and> l \<in> set (available_lockers (data s))
          \<and> data (fst (assign_card_to_locker e c l w s)) = assigned (strip c) l tx (data s))"
proof (cases "check_card_already_assigned (data s) (strip c)")
  case True
  then show ?thesis by (simp add: assign_already_assigned)
next
  case nc: False
  show ?thesis
  proof (cases "l \<in> set (available_lockers (data s))")
    case False
    with nc show ?thesis by (simp add: assign_locker_unavailable)
  next
    case av: True
    obtain s1 cat where g: "get_wash_types (wash_reply e) s = (s1, cat)"
      by (cases "get_wash_types (wash_reply e) s")
    show ?thesis
    proof (cases "find (\<lambda>wt. wt_id wt = w) (snd (get_wash_types (wash_reply e) s))")
      case None
      from assign_invalid_wash_type[OF nc av None] g get_wash_types_frame(1)[OF g]
      show ?thesis by simp
    next
      case (Some sel)
      show ?thesis
      proof (cases "LockerTransaction e (strip c) l (Some sel)")
        case (Inl err)
        from assign_system_error[OF nc av Some Inl] g get_wash_types_frame(1)[OF g]
        show ?thesis by simp
      next
        case (Inr tx)
        from assign_success(2)[OF nc av Some Inr] nc av show ?thesis by blast
      qed
    qed
  qed
qed

lemma first_index_None: "first_index P xs = None \<longleftrightarrow> (\<forall>x \<in> set xs. \<not> P x)"
  by (induction xs) auto

lemma first_index_Some:
  "first_index P xs = Some i \<Longrightarrow> i < length xs \<and> P (xs ! i)"
  by (induction xs arbitrary: i) (auto split: if_splits)

lemma pickup_not_found:
  "resolve_card (data s) c = None \<Longrightarrow>
   process_pickup e c s = (s, False, ''Card not associated with any locker'')"
  by (simp add: process_pickup_def)

lemma pickup_primary:
  assumes "resolve_card (data s) c = Some (k, info)"
    and "first_index (\<lambda>tr. t_transaction_id tr = a_transaction_id info) (transactions (data s)) = Some i"
  shows "snd (process_pickup e c s) = (True, ''Clothes picked up from locker '' @ a_locker_id info)"
    and "data (fst (process_pickup e c s))
           = release k (a_locker_id info) (complete_at i (now e) (data s))"
  using assms
  by (simp_all add: process_pickup_def Let_def split_beta save_data_frame send_to_server_frame
      unlock_locker_frame)

lemma pickup_fallback:
  assumes "resolve_card (data s) c = Some (k, info)"
    and "first_index (\<lambda>tr. t_transaction_id tr = a_transaction_id info) (transactions (data s)) = None"
    and "first_index (\<lambda>tr. t_card_id tr = k \<and> t_status tr \<noteq> Completed) (transactions (data s)) = Some i"
  shows "snd (process_pickup e c s)
           = (True, ''Clothes picked up from locker '' @ t_locker_id (transactions (data s) ! i)
                      @ '' (fallback)'')"
    and "data (fst (process_pickup e c s))
           = release k (t_locker_id (transactions (data s) ! i)) (complete_at i (now e) (data s))"
  using assms
  by (simp_all add: process_pickup_def Let_def split_beta save_data_frame send_to_server_frame
      unlock_locker_frame)

lemma find_pair_in: "find P xs = Some x \<Longrightarrow> x \<in> set xs \<and> P x"
  by (induction xs) (auto split: if_splits)

lemma resolve_card_Some:
  assumes "resolve_card d c = Some (k, info)"
  shows "(k, info) \<in> set (active_cards d)"
    and "lower k = lower c"
    and "k = c \<or> c \<notin> fst ` set (active_cards d)"
  using assms
  by (auto simp: resolve_card_def map_of_eq_None_iff split: option.splits
      dest: map_of_SomeD find_pair_in)

lemma resolve_card_None:
  "resolve_card d c = None \<longleftrightarrow> (\<forall>k \<in> fst ` set (active_cards d). lower k \<noteq> lower c)"
  by (auto simp: resolve_card_def map_of_eq_None_iff find_None_iff split: option.splits
      dest!: map_of_SomeD) force

lemma pickup_reset:
  assumes "resolve_card (data s) c = Some (k, info)"
    and "first_index (\<lambda>tr. t_transaction_id tr = a_transaction_id info) (transactions (data s)) = None"
    and "first_index (\<lambda>tr. t_card_id tr = k \<and> t_status tr \<noteq> Completed) (transactions (data s)) = None"
    and "map_of (active_cards (data s)) k = Some entry"
  shows "process_pickup e c s
           = (save_data e (s\<lparr>data := release k (a_locker_id entry) (data s)\<rparr>), True,
              ''Locker '' @ a_locker_id entry @ '' unlocked and reset'')"
  using assms by (simp add: process_pickup_def Let_def)

lemma update_fresh: "k \<notin> fst ` set al \<Longrightarrow> AList.update k v al = al @ [(k, v)]"
  by (induction al) auto

lemma check_not_assigned:
  assumes "\<not> check_card_already_assigned d c"
  shows "strip c \<notin> fst ` set (active_cards d)"
    and "\<forall>k \<in> fst ` set (active_cards d). lower k \<noteq> lower (strip c)"
    and "\<forall>t \<in> set (transactions d). \<not> (t_status t \<noteq> Completed \<and> lower (strip (t_card_id t)) = lower (strip c))"
  using assms
  by (auto simp: check_card_already_assigned_def Let_def list_ex_iff split: if_splits)

lemma trim_right_keeps_head:
  "ys = [] \<or> \<not> P (hd ys) \<Longrightarrow>
   rev (dropWhile P (rev ys)) = [] \<or> \<not> P (hd (rev (dropWhile P (rev ys))))"
proof (induction ys rule: rev_induct)
  case Nil
  then show ?case by simp
next
  case (snoc z zs)
  show ?case
  proof (cases "P z")
    case True
    with snoc show ?thesis by (cases zs) auto
  next
    case False
    with snoc.prems show ?thesis by simp
  qed
qed

lemma strip_strip: "strip (strip c) = strip c"
proof -
  let ?y = "dropWhile is_space c"
  let ?x = "rev (dropWhile is_space (rev ?y))"
  have "?y = [] \<or> \<not> is_space (hd ?y)"
    using hd_dropWhile[of is_space c] by blast
  then have "?x = [] \<or> \<not> is_space (hd ?x)"
    by (rule trim_right_keeps_head)
  then have left: "dropWhile is_space ?x = ?x"
    by (simp only: dropWhile_eq_self_iff)
  have right: "dropWhile is_space (rev ?x) = rev ?x"
    by (simp add: dropWhile_idem)
  have "strip (strip c) = rev (dropWhile is_space (rev (dropWhile is_space ?x)))"
    by (simp add: strip_def)
  also have "\<dots> = rev (dropWhile is_space (rev ?x))"
    by (simp only: left)
  also have "\<dots> = ?x"
    by simp
  finally show ?thesis by (simp add: strip_def)
qed

lemma consistent_initial:
  "active_cards d = [] \<Longrightarrow> distinct (available_lockers d) \<Longrightarrow>
   set (available_lockers d) = set L \<Longrightarrow> consistent L d"
  by (simp add: consistent_def occupied_def)

lemma consistent_assigned:
  assumes "consistent L d"
    and "\<not> check_card_already_assigned d k"
    and "strip k = k"
    and "l \<in> set (available_lockers d)"
  shows "consistent L (assigned k l tx d)"
proof -
  from check_not_assigned[OF assms(2)] assms(3)
  have fresh: "k \<notin> fst ` set (active_cards d)"
    and low: "\<forall>k' \<in> fst ` set (active_cards d). lower k' \<noteq> lower k"
    by simp_all
  have ac: "active_cards (assigned k l tx d)
      = active_cards d @ [(k, \<lparr>a_locker_id = l, a_transaction_id = t_transaction_id tx\<rparr>)]"
    by (simp add: assigned_def update_fresh[OF fresh])
  have occ: "occupied (assigned k l tx d) = occupied d @ [l]"
    by (simp add: occupied_def ac)
  have av: "available_lockers (assigned k l tx d) = remove1 l (available_lockers d)"
    by (simp add: assigned_def)
  have tr: "transactions (assigned k l tx d)
      = transactions d @ [tx]"
    by (simp add: assigned_def)
  from assms(1) have d1: "distinct (available_lockers d)" and d2: "distinct (occupied d)"
    and d3: "set (available_lockers d) \<inter> set (occupied d) = {}"
    and cover: "set (available_lockers d) \<union> set (occupied d) = set L"
    and keys: "distinct (map fst (active_cards d))"
    and inj: "inj_on lower (set (map fst (active_cards d)))"
    and tids: "\<forall>(card_id, info) \<in> set (active_cards d).
           a_transaction_id info \<in> set (map t_transaction_id (transactions d))"
    by (auto simp: consistent_def)
  have 1: "distinct (available_lockers (assigned k l tx d) @ occupied (assigned k l tx d))"
    using d1 d2 d3 assms(4) by (auto simp: occ av)
  have 2: "set (available_lockers (assigned k l tx d) @ occupied (assigned k l tx d)) = set L"
    using d1 cover assms(4) by (auto simp: occ av)
  have 3: "distinct (map fst (active_cards (assigned k l tx d)))"
    using keys fresh by (simp add: ac)
  have 4: "inj_on lower (set (map fst (active_cards (assigned k l tx d))))"
    using inj low by (auto simp: ac inj_on_def)
  have 5: "\<forall>(card_id, info) \<in> set (active_cards (assigned k l tx d)).
           a_transaction_id info \<in> set (map t_transaction_id (transactions (assigned k l tx d)))"
    using tids by (auto simp: ac tr)
  from 1 2 3 4 5 show ?thesis unfolding consistent_def by blast
qed

lemma delete_append: "AList.delete k (xs @ ys) = AList.delete k xs @ AList.delete k ys"
  by (induction xs) auto

lemma delete_split:
  assumes "distinct (map fst al)" and "(k, v) \<in> set al"
  shows "\<exists>xs ys. al = xs @ (k, v) # ys \<and> AList.delete k al = xs @ ys"
proof -
  from assms(2) obtain xs ys where al: "al = xs @ (k, v) # ys"
    by (auto simp: in_set_conv_decomp)
  with assms(1) have "k \<notin> fst ` set xs" and "k \<notin> fst ` set ys"
    by auto
  then have "AList.delete k al = xs @ ys"
    by (simp add: al delete_append)
  with al show ?thesis by blast
qed

lemma complete_at_frame:
  "active_cards (complete_at i t d) = active_cards d"
  "available_lockers (complete_at i t d) = available_lockers d"
  "map t_transaction_id (transactions (complete_at i t d)) = map t_transaction_id (transactions d)"
  "occupied (complete_at i t d) = occupied d"
  by (simp_all add: complete_at_def occupied_def complete_transaction_def map_update
      list_update_same_conv)
     (metis list_update_id map_update)

lemma consistent_release:
  assumes "consistent L d" and "(k, info) \<in> set (active_cards d)"
  shows "consistent L (release k (a_locker_id info) (complete_at i t d))"
proof -
  let ?l = "a_locker_id info"
  let ?d' = "release k ?l (complete_at i t d)"
  from assms(1) have dist: "distinct (available_lockers d @ occupied d)"
    and cover: "set (available_lockers d @ occupied d) = set L"
    and keys: "distinct (map fst (active_cards d))"
    and inj: "inj_on lower (set (map fst (active_cards d)))"
    and tids: "\<forall>(card_id, info) \<in> set (active_cards d).
           a_transaction_id info \<in> set (map t_transaction_id (transactions d))"
    by (auto simp: consistent_def)
  from delete_split[OF keys assms(2)] obtain xs ys
    where al: "active_cards d = xs @ (k, info) # ys"
      and del: "AList.delete k (active_cards d) = xs @ ys"
    by blast
  have occ: "occupied d = map (\<lambda>(c, a). a_locker_id a) xs @ ?l # map (\<lambda>(c, a). a_locker_id a) ys"
    by (simp add: occupied_def al)
  with dist have notfree: "?l \<notin> set (available_lockers d)" by auto
  have ac': "active_cards ?d' = xs @ ys"
    by (simp add: release_def complete_at_frame del)
  have av': "available_lockers ?d' = available_lockers d @ [?l]"
    using notfree by (simp add: release_def complete_at_frame)
  have occ': "occupied ?d' = map (\<lambda>(c, a). a_locker_id a) xs @ map (\<lambda>(c, a). a_locker_id a) ys"
    by (simp add: occupied_def ac')
  have tr': "map t_transaction_id (transactions ?d') = map t_transaction_id (transactions d)"
    by (simp add: release_def complete_at_frame)
  have 1: "distinct (available_lockers ?d' @ occupied ?d')"
    using dist by (auto simp: occ occ' av')
  have 2: "set (available_lockers ?d' @ occupied ?d') = set L"
    using cover by (auto simp: occ occ' av')
  have 3: "distinct (map fst (active_cards ?d'))"
    using keys by (simp add: ac' al)
  have 4: "inj_on lower (set (map fst (active_cards ?d')))"
    using inj by (rule inj_on_subset) (auto simp: ac' al)
  have 5: "\<forall>(card_id, info) \<in> set (active_cards ?d').
           a_transaction_id info \<in> set (map t_transaction_id (transactions ?d'))"
    using tids by (auto simp: ac' al tr' simp del: set_map)
  from 1 2 3 4 5 show ?thesis unfolding consistent_def by blast
qed

lemma consistent_pickup:
  assumes "consistent L (data s)"
  shows "consistent L (data (fst (process_pickup e c s)))"
proof (cases "resolve_card (data s) c")
  case None
  with assms show ?thesis by (simp add: pickup_not_found)
next
  case (Some p)
  obtain k info where p: "p = (k, info)" by (cases p)
  with Some have r: "resolve_card (data s) c = Some (k, info)" by simp
  then have mem: "(k, info) \<in> set (active_cards (data s))" by (rule resolve_card_Some)
  with assms have "a_transaction_id info \<in> set (map t_transaction_id (transactions (data s)))"
    by (auto simp: consistent_def)
  then have "first_index (\<lambda>tr. t_transaction_id tr = a_transaction_id info) (transactions (data s)) \<noteq> None"
    by (auto simp: first_index_None)
  then obtain i where "first_index (\<lambda>tr. t_transaction_id tr = a_transaction_id info) (transactions (data s)) = Some i"
    by blast
  from pickup_primary(2)[OF r this] consistent_release[OF assms mem]
  show ?thesis by simp
qed

lemma consistent_assign:
  assumes "consistent L (data s)"
  shows "consistent L (data (fst (assign_card_to_locker e c l w s)))"
  using assign_data_cases[of e c l w s] assms
  by (auto simp: strip_strip intro!: consistent_assigned)

lemma resolve_wash_type_id_frame:
  assumes "resolve_wash_type_id e p s = (s1, r)"
  shows "data s1 = data s" and "actuator s1 = actuator s" and "relay_pins s1 = relay_pins s"
    and "config s1 = config s"
proof -
  obtain s2 cat where g: "get_wash_types (name_lookup_reply e) s = (s2, cat)"
    by (cases "get_wash_types (name_lookup_reply e) s")
  note fr = get_wash_types_frame[OF g]
  from assms g have "s1 = s \<or> s1 = s2"
    by (auto simp: resolve_wash_type_id_def split: wash_param.splits jval.splits if_splits option.splits)
  with fr show "data s1 = data s" and "actuator s1 = actuator s" and "relay_pins s1 = relay_pins s"
    and "config s1 = config s"
    by auto
qed


lemma drop_off_data_cases:
  "data (fst (drop_off e req s)) = data s
   \<or> (\<exists>s1 c l w. data s1 = data s
          \<and> data (fst (drop_off e req s)) = data (fst (assign_card_to_locker e c l w s1)))"
proof (cases "req_card_id req")
  case None
  then show ?thesis by (simp add: drop_off_def)
next
  case rc: (Some rc)
  show ?thesis
  proof (cases "req_wash_type req")
    case None
    with rc show ?thesis by (simp add: drop_off_def)
  next
    case p: (Some p)
    show ?thesis
    proof (cases "check_card_already_assigned (data s) (strip rc)")
      case True
      with rc p show ?thesis by (simp add: drop_off_def)
    next
      case nc: False
      show ?thesis
      proof (cases "available_lockers (data s)")
        case Nil
        with rc p nc show ?thesis by (simp add: drop_off_def)
      next
        case (Cons l ls)
        obtain s1 r where res: "resolve_wash_type_id e p s = (s1, r)"
          by (cases "resolve_wash_type_id e p s")
        note fr = resolve_wash_type_id_frame(1)[OF res]
        show ?thesis
        proof (cases r)
          case (Inl x)
          with rc p nc Cons res fr show ?thesis by (simp add: drop_off_def)
        next
          case (Inr w)
          obtain s2 ok msg where a: "assign_card_to_locker e rc l w s1 = (s2, ok, msg)"
            by (cases "assign_card_to_locker e rc l w s1")
          then have "data (fst (drop_off e req s)) = data s2"
            using rc p nc Cons res Inr
            by (cases ok) (simp_all add: drop_off_def split_beta unlock_locker_frame)
          with a fr show ?thesis
            by (metis fst_conv)
        qed
      qed
    qed
  qed
qed

lemma consistent_drop_off:
  assumes "consistent L (data s)"
  shows "consistent L (data (fst (drop_off e req s)))"
  using drop_off_data_cases[of e req s]
proof
  assume "data (fst (drop_off e req s)) = data s"
  with assms show ?thesis by simp
next
  assume "\<exists>s1 c l w. data s1 = data s
            \<and> data (fst (drop_off e req s)) = data (fst (assign_card_to_locker e c l w s1))"
  then obtain s1 c l w where "data s1 = data s"
    and "data (fst (drop_off e req s)) = data (fst (assign_card_to_locker e c l w s1))"
    by blast
  with consistent_assign[of L s1 e c l w] assms show ?thesis by simp
qed

lemma reachable_consistent:
  "reachable c s \<Longrightarrow> consistent (map fst (cfg_relay_pins c)) (data s)"
proof (induction rule: reachable.induct)
  case (start d)
  then show ?case by (simp add: loaded_system_def consistent_initial)
next
  case (after_assign s e card_id locker_id wash_type_id)
  then show ?case by (simp add: consistent_assign)
next
  case (after_drop_off s e req)
  then show ?case by (simp add: consistent_drop_off)
next
  case (after_pickup s e card_id)
  then show ?case by (simp add: consistent_pickup)
qed

lemma after_A1_data:
  "data after_A1 =
     \<lparr>active_cards = [(''A1'', \<lparr>a_locker_id = ''1'', a_transaction_id = ''tx-1''\<rparr>)],
      transactions =
        [\<lparr>t_transaction_id = ''tx-1'', t_card_id = ''A1'', t_locker_id = ''1'',
          t_wash_type = Some \<lparr>wt_id = JInt 1, wt_name = ''Standard Wash'', wt_price = 5,
                                wt_estimated_time = None\<rparr>,
          t_status = Pending, t_drop_off_time = 0, t_pickup_time = None,
          t_estimated_completion_time = None, t_device_info = []\<rparr>],
      available_lockers = [''2'']\<rparr>"
  by code_simp

lemma reachable_initial:
  "distinct (map fst (cfg_relay_pins c)) \<Longrightarrow> reachable c (initial_system c)"
  unfolding initial_system_def
  by (rule reachable.start) (simp_all add: initial_data_def)

lemma reachable_after_A1: "reachable DEFAULT_CONFIG after_A1"
  unfolding after_A1_def
  by (rule reachable.after_drop_off, rule reachable_initial) (simp add: DEFAULT_CONFIG_def)

section \<open>Properties of the assignment and pickup engines\<close>

text \<open>
  C9 (locker partition). In every state reachable from the initial state by any sequence
  of \<open>assign_card_to_locker\<close>, \<open>drop_off\<close> and \<open>process_pickup\<close> calls, in any
  environment, a configured locker is in \<open>available_lockers\<close> exactly when no
  \<open>active_cards\<close> entry references it: it is free or occupied, never both, never
  neither.
\<close>

theorem locker_free_iff_not_occupied:
  assumes "reachable c s" and "l \<in> set (map fst (cfg_relay_pins c))"
  shows "(l \<in> set (available_lockers (data s)))
           = (\<not> (\<exists>(card_id, info) \<in> set (active_cards (data s)). a_locker_id info = l))"
proof -
  from reachable_consistent[OF assms(1)]
  have dist: "distinct (available_lockers (data s) @ occupied (data s))"
    and cover: "set (available_lockers (data s) @ occupied (data s)) = set (map fst (cfg_relay_pins c))"
    by (simp_all add: consistent_def)
  have occ: "(\<exists>(card_id, info) \<in> set (active_cards (data s)). a_locker_id info = l)
      = (l \<in> set (occupied (data s)))"
    by (auto simp: occupied_def)
  from dist cover assms(2) show ?thesis
    unfolding occ by auto
qed

theorem locker_free_iff_not_occupied_witness:
  "''1'' \<notin> set (available_lockers (data after_A1))
   \<and> (\<exists>(card_id, info) \<in> set (active_cards (data after_A1)). a_locker_id info = ''1'')
   \<and> ''2'' \<in> set (available_lockers (data after_A1))
   \<and> \<not> (\<exists>(card_id, info) \<in> set (active_cards (data after_A1)). a_locker_id info = ''2'')"
proof -
  have c1: "''1'' \<in> set (map fst (cfg_relay_pins DEFAULT_CONFIG))"
    and c2: "''2'' \<in> set (map fst (cfg_relay_pins DEFAULT_CONFIG))"
    by (simp_all add: DEFAULT_CONFIG_def)
  have a: "''1'' \<notin> set (available_lockers (data after_A1))"
    and b: "''2'' \<in> set (available_lockers (data after_A1))"
    by (simp_all add: after_A1_data)
  from a b locker_free_iff_not_occupied[OF reachable_after_A1 c1]
    locker_free_iff_not_occupied[OF reachable_after_A1 c2]
  show ?thesis by simp
qed

lemma pickup_success_resolved:
  assumes "process_pickup e c s = (s', True, msg)"
  shows "\<exists>k info. resolve_card (data s) c = Some (k, info)"
proof (cases "resolve_card (data s) c")
  case None
  from pickup_not_found[OF None, of e] assms show ?thesis by simp
next
  case (Some p)
  then show ?thesis by (cases p) simp
qed

lemma find_key_map_of:
  assumes "find (\<lambda>(k', v). Q k') al = Some (k, info)"
  shows "map_of al k = Some info"
  using assms
proof (induction al)
  case Nil
  then show ?case by simp
next
  case (Cons p al)
  obtain k' v where p: "p = (k', v)" by (cases p)
  show ?case
  proof (cases "Q k'")
    case True
    with Cons.prems p show ?thesis by simp
  next
    case False
    with Cons.prems p have f: "find (\<lambda>(k', v). Q k') al = Some (k, info)" by simp
    from find_pair_in[OF f] have "Q k" by simp
    with False have "k \<noteq> k'" by auto
    with Cons.IH[OF f] p show ?thesis by simp
  qed
qed

lemma resolve_card_map_of:
  "resolve_card d c = Some (k, info) \<Longrightarrow> map_of (active_cards d) k = Some info"
  by (auto simp: resolve_card_def split: option.splits dest: find_key_map_of)

lemma pickup_success_deletes:
  assumes "process_pickup e c s = (s', True, msg)"
  shows "\<exists>k info. resolve_card (data s) c = Some (k, info)
           \<and> active_cards (data s') = AList.delete k (active_cards (data s))"
proof -
  from pickup_success_resolved[OF assms] obtain k info
    where r: "resolve_card (data s) c = Some (k, info)" by blast
  let ?by_id = "first_index (\<lambda>tr. t_transaction_id tr = a_transaction_id info)
      (transactions (data s))"
  let ?by_card = "first_index (\<lambda>tr. t_card_id tr = k \<and> t_status tr \<noteq> Completed)
      (transactions (data s))"
  have "active_cards (data s') = AList.delete k (active_cards (data s))"
  proof (cases ?by_id)
    case (Some i)
    from pickup_primary(2)[OF r Some, of e] assms show ?thesis
      by (simp add: release_def complete_at_frame)
  next
    case no_id: None
    show ?thesis
    proof (cases ?by_card)
      case (Some i)
      from pickup_fallback(2)[OF r no_id Some, of e] assms show ?thesis
        by (simp add: release_def complete_at_frame)
    next
      case None
      from pickup_reset[OF r no_id None resolve_card_map_of[OF r], of e] assms show ?thesis
        by (auto simp: release_def save_data_frame)
    qed
  qed
  with r show ?thesis by blast
qed

lemma reachable_keys_distinct_up_to_case:
  "reachable c s \<Longrightarrow> inj_on lower (fst ` set (active_cards (data s)))"
  using reachable_consistent[of c s] by (simp add: consistent_def)

text \<open>
  C5 (second pickup), as stated, fails where two active cards differ by case only: with
  \<open>A1\<close> holding locker 1 and \<open>a1\<close> holding locker 2, a pickup for \<open>A1\<close> succeeds, and the
  second pickup for \<open>A1\<close> resolves to \<open>a1\<close> by the case-insensitive match, succeeds again
  and releases locker 2.
\<close>

theorem second_pickup_after_case_drift:
  "fst (snd (process_pickup env0 ''A1'' drifted))
   \<and> snd (process_pickup env0 ''A1'' (fst (process_pickup env0 ''A1'' drifted)))
       = (True, ''Clothes picked up from locker 2'')
   \<and> active_cards (data (fst (process_pickup env0 ''A1'' drifted)))
       = [(''a1'', \<lparr>a_locker_id = ''2'', a_transaction_id = ''tx-2''\<rparr>)]
   \<and> active_cards
        (data (fst (process_pickup env0 ''A1'' (fst (process_pickup env0 ''A1'' drifted)))))
       = []
   \<and> available_lockers
        (data (fst (process_pickup env0 ''A1'' (fst (process_pickup env0 ''A1'' drifted)))))
       = [''1'', ''2'']"
  by code_simp

text \<open>
  C5 (second pickup), amended. In every state whose \<open>active_cards\<close> keys are pairwise
  distinct up to case (every reachable state is one), once \<open>process_pickup\<close> has
  succeeded for a card, by the primary path, the fallback or the force reset, a second
  call for the same card returns the failure ``Card not associated with any locker'' and
  leaves the whole system state, hence the pool, the assignments and the transaction
  list, as the first call left it.
\<close>

theorem second_pickup_not_found:
  assumes "inj_on lower (fst ` set (active_cards (data s)))"
    and "process_pickup e card_id s = (s', True, msg)"
  shows "process_pickup e' card_id s' = (s', False, ''Card not associated with any locker'')"
proof -
  from pickup_success_deletes[OF assms(2)] obtain k info
    where r: "resolve_card (data s) card_id = Some (k, info)"
      and ac: "active_cards (data s') = AList.delete k (active_cards (data s))"
    by blast
  note rs = resolve_card_Some[OF r]
  have "\<forall>k' \<in> fst ` set (active_cards (data s')). lower k' \<noteq> lower card_id"
  proof
    fix k' assume k': "k' \<in> fst ` set (active_cards (data s'))"
    with ac have in_old: "k' \<in> fst ` set (active_cards (data s))"
      using AList.dom_delete_subset[of k "active_cards (data s)"] by auto
    from k' ac have ne: "k' \<noteq> k"
      using AList.delete_notin_dom[of k "active_cards (data s)"] by auto
    show "lower k' \<noteq> lower card_id"
    proof
      assume "lower k' = lower card_id"
      with rs(2) have "lower k' = lower k" by simp
      moreover from rs(1) have "k \<in> fst ` set (active_cards (data s))" by force
      ultimately have "k' = k"
        using assms(1) in_old by (auto simp: inj_on_def)
      with ne show False by simp
    qed
  qed
  then have "resolve_card (data s') card_id = None"
    by (simp add: resolve_card_None)
  then show ?thesis by (rule pickup_not_found)
qed

theorem second_pickup_not_found_witness:
  "fst (snd (process_pickup env0 ''A1'' after_A1)) = True
   \<and> process_pickup env0 ''A1'' (fst (process_pickup env0 ''A1'' after_A1))
       = (fst (process_pickup env0 ''A1'' after_A1), False, ''Card not associated with any locker'')
   \<and> fst (snd (process_pickup env0 ''a1'' orphaned_A1)) = True
   \<and> process_pickup env0 ''a1'' (fst (process_pickup env0 ''a1'' orphaned_A1))
       = (fst (process_pickup env0 ''a1'' orphaned_A1), False,
          ''Card not associated with any locker'')"
proof -
  have inj1: "inj_on lower (fst ` set (active_cards (data after_A1)))"
    by (simp add: after_A1_data)
  have inj2: "inj_on lower (fst ` set (active_cards (data orphaned_A1)))"
    by (simp add: orphaned_A1_def)
  have ok1: "fst (snd (process_pickup env0 ''A1'' after_A1)) = True"
    by code_simp
  have ok2: "fst (snd (process_pickup env0 ''a1'' orphaned_A1)) = True"
    by code_simp
  from ok1 have e1: "process_pickup env0 ''A1'' after_A1
      = (fst (process_pickup env0 ''A1'' after_A1), True, snd (snd (process_pickup env0 ''A1'' after_A1)))"
    by (metis prod.collapse)
  from ok2 have e2: "process_pickup env0 ''a1'' orphaned_A1
      = (fst (process_pickup env0 ''a1'' orphaned_A1), True,
         snd (snd (process_pickup env0 ''a1'' orphaned_A1)))"
    by (metis prod.collapse)
  from second_pickup_not_found[OF inj1 e1, of env0] second_pickup_not_found[OF inj2 e2, of env0]
    ok1 ok2
  show ?thesis by simp
qed

text \<open>
  C6 (force reset). When the presented card resolves to an \<open>active_cards\<close> entry, no
  transaction carries the entry's transaction id and no transaction that is not completed
  carries the entry's card id, \<open>process_pickup\<close> reports success, removes the entry, puts
  the entry's locker into the pool, leaves the transaction list as it was and drives no
  actuator output.
\<close>

theorem pickup_force_reset:
  assumes "resolve_card (data s) card_id = Some (k, info)"
    and "\<forall>t \<in> set (transactions (data s)). t_transaction_id t \<noteq> a_transaction_id info"
    and "\<forall>t \<in> set (transactions (data s)). \<not> (t_card_id t = k \<and> t_status t \<noteq> Completed)"
  shows "fst (snd (process_pickup e card_id s)) = True
    \<and> snd (snd (process_pickup e card_id s)) = ''Locker '' @ a_locker_id info @ '' unlocked and reset''
    \<and> active_cards (data (fst (process_pickup e card_id s)))
        = AList.delete k (active_cards (data s))
    \<and> k \<notin> fst ` set (active_cards (data (fst (process_pickup e card_id s))))
    \<and> set (available_lockers (data (fst (process_pickup e card_id s))))
        = insert (a_locker_id info) (set (available_lockers (data s)))
    \<and> transactions (data (fst (process_pickup e card_id s))) = transactions (data s)
    \<and> actuator (fst (process_pickup e card_id s)) = actuator s"
proof -
  from assms(2) have a: "first_index (\<lambda>tr. t_transaction_id tr = a_transaction_id info)
      (transactions (data s)) = None"
    by (simp add: first_index_None)
  from assms(3) have b: "first_index (\<lambda>tr. t_card_id tr = k \<and> t_status tr \<noteq> Completed)
      (transactions (data s)) = None"
    by (simp add: first_index_None)
  note eq = pickup_reset[OF assms(1) a b resolve_card_map_of[OF assms(1)], of e]
  show ?thesis
    unfolding eq
    using AList.delete_notin_dom[of k "active_cards (data s)"]
    by (auto simp: save_data_frame release_def)
qed

theorem pickup_force_reset_witness:
  "process_pickup env0 ''a1'' orphaned_A1
     = (orphaned_A1
          \<lparr>data := \<lparr>active_cards = [], transactions = [], available_lockers = [''2'', ''1'']\<rparr>,
            db_file := Some \<lparr>active_cards = [], transactions = [],
                             available_lockers = [''2'', ''1'']\<rparr>\<rparr>,
        True, ''Locker 1 unlocked and reset'')"
proof -
  have r: "resolve_card (data orphaned_A1) ''a1''
      = Some (''A1'', \<lparr>a_locker_id = ''1'', a_transaction_id = ''tx-lost''\<rparr>)"
    by code_simp
  have t: "transactions (data orphaned_A1) = []"
    by (simp add: orphaned_A1_def)
  have "fst (snd (process_pickup env0 ''a1'' orphaned_A1)) = True"
    using pickup_force_reset[OF r, of env0] t by simp
  moreover have "process_pickup env0 ''a1'' orphaned_A1
     = (orphaned_A1
          \<lparr>data := \<lparr>active_cards = [], transactions = [], available_lockers = [''2'', ''1'']\<rparr>,
            db_file := Some \<lparr>active_cards = [], transactions = [],
                             available_lockers = [''2'', ''1'']\<rparr>\<rparr>,
        fst (snd (process_pickup env0 ''a1'' orphaned_A1)), ''Locker 1 unlocked and reset'')"
    by code_simp
  ultimately show ?thesis by simp
qed

lemma check_card_already_assigned_iff:
  "check_card_already_assigned d k
     = (strip k \<in> fst ` set (active_cards d)
        \<or> (\<exists>a \<in> fst ` set (active_cards d). lower a = lower (strip k))
        \<or> (\<exists>t \<in> set (transactions d).
              t_status t \<noteq> Completed \<and> lower (strip (t_card_id t)) = lower (strip k)))"
  by (auto simp: check_card_already_assigned_def Let_def list_ex_iff)

lemma assign_failed_no_mutation:
  assumes "\<not> fst (snd (assign_card_to_locker e c l w s))"
  shows "data (fst (assign_card_to_locker e c l w s)) = data s"
proof (cases "check_card_already_assigned (data s) (strip c)")
  case True
  then show ?thesis by (simp add: assign_already_assigned)
next
  case nc: False
  show ?thesis
  proof (cases "l \<in> set (available_lockers (data s))")
    case False
    with nc show ?thesis by (simp add: assign_locker_unavailable)
  next
    case av: True
    show ?thesis
    proof (cases "find (\<lambda>wt. wt_id wt = w) (snd (get_wash_types (wash_reply e) s))")
      case None
      obtain s1 cat where g: "get_wash_types (wash_reply e) s = (s1, cat)"
        by (cases "get_wash_types (wash_reply e) s")
      from assign_invalid_wash_type[OF nc av None] g get_wash_types_frame(1)[OF g]
      show ?thesis by simp
    next
      case (Some sel)
      show ?thesis
      proof (cases "LockerTransaction e (strip c) l (Some sel)")
        case (Inl err)
        obtain s1 cat where g: "get_wash_types (wash_reply e) s = (s1, cat)"
          by (cases "get_wash_types (wash_reply e) s")
        from assign_system_error[OF nc av Some Inl] g get_wash_types_frame(1)[OF g]
        show ?thesis by simp
      next
        case (Inr tx)
        from assign_success(1)[OF nc av Some Inr] assms show ?thesis by simp
      qed
    qed
  qed
qed

lemma drop_off_failed_no_mutation:
  assumes "\<not> success (snd (drop_off e req s))"
  shows "data (fst (drop_off e req s)) = data s"
proof (cases "req_card_id req")
  case None
  then show ?thesis by (simp add: drop_off_def)
next
  case rc: (Some rc)
  show ?thesis
  proof (cases "req_wash_type req")
    case None
    with rc show ?thesis by (simp add: drop_off_def)
  next
    case p: (Some p)
    show ?thesis
    proof (cases "check_card_already_assigned (data s) (strip rc)")
      case True
      with rc p show ?thesis by (simp add: drop_off_def)
    next
      case nc: False
      show ?thesis
      proof (cases "available_lockers (data s)")
        case Nil
        with rc p nc show ?thesis by (simp add: drop_off_def)
      next
        case (Cons l ls)
        obtain s1 r where res: "resolve_wash_type_id e p s = (s1, r)"
          by (cases "resolve_wash_type_id e p s")
        note fr = resolve_wash_type_id_frame(1)[OF res]
        show ?thesis
        proof (cases r)
          case (Inl x)
          with rc p nc Cons res fr show ?thesis by (simp add: drop_off_def)
        next
          case (Inr w)
          obtain s2 ok msg where a: "assign_card_to_locker e rc l w s1 = (s2, ok, msg)"
            by (cases "assign_card_to_locker e rc l w s1")
          have d: "drop_off e req s
              = (if ok then (fst (unlock_locker l s2),
                             \<lparr>success = True, message = msg, resp_locker_id = Some l\<rparr>)
                 else (s2, failed msg))"
            using rc p nc Cons res Inr a by (simp add: drop_off_def split_beta)
          with assms have "\<not> ok" by (auto simp: failed_def split: if_splits)
          with a have "\<not> fst (snd (assign_card_to_locker e rc l w s1))" by simp
          from assign_failed_no_mutation[OF this] a fr d \<open>\<not> ok\<close>
          show ?thesis by simp
        qed
      qed
    qed
  qed
qed

lemma drop_off_already_assigned:
  assumes "req_card_id req = Some rc" and "req_wash_type req = Some p"
    and "check_card_already_assigned (data s) (strip rc)"
  shows "fst (drop_off e req s) = s" and "\<not> success (snd (drop_off e req s))"
  using assms by (simp_all add: drop_off_def failed_def Let_def)

lemma drop_off_no_lockers:
  assumes "req_card_id req = Some rc" and "req_wash_type req = Some p"
    and "\<not> check_card_already_assigned (data s) (strip rc)"
    and "available_lockers (data s) = []"
  shows "drop_off e req s = (s, failed ''No lockers available'')"
  using assms by (simp add: drop_off_def)

text \<open>
  C3 (preconditions). \<open>assign_card_to_locker\<close> checks, in this order, that the card is
  not already assigned, that the locker is available and that the wash type is known.
  The first check that fails decides the result, whatever the later ones would say: the
  call returns \<open>False\<close> with that check's message. Every call that returns \<open>False\<close>
  leaves \<open>active_cards\<close>, \<open>available_lockers\<close> and the transaction list as they were.
  The card check is: the exact key, or a key equal up to case, or a transaction that is
  not completed whose card id is equal up to case. The drop-off route, which picks the
  locker, checks the card first and the pool next, and each of its failures leaves the
  three collections as they were.
\<close>

theorem assign_preconditions_in_order:
  "(check_card_already_assigned (data s) (strip c)
      \<longrightarrow> assign_card_to_locker e c l w s
            = (s, False, ''Card already assigned to another locker''))
   \<and> (\<not> check_card_already_assigned (data s) (strip c)
        \<and> l \<notin> set (available_lockers (data s))
      \<longrightarrow> assign_card_to_locker e c l w s = (s, False, ''Locker not available''))
   \<and> (\<not> check_card_already_assigned (data s) (strip c)
        \<and> l \<in> set (available_lockers (data s))
        \<and> find (\<lambda>wt. wt_id wt = w) (snd (get_wash_types (wash_reply e) s)) = None
      \<longrightarrow> snd (assign_card_to_locker e c l w s) = (False, ''Invalid wash type'')
          \<and> data (fst (assign_card_to_locker e c l w s)) = data s)
   \<and> (\<not> fst (snd (assign_card_to_locker e c l w s))
      \<longrightarrow> data (fst (assign_card_to_locker e c l w s)) = data s)
   \<and> (req_card_id req = Some rc \<and> req_wash_type req = Some p
        \<and> check_card_already_assigned (data s) (strip rc)
      \<longrightarrow> fst (drop_off e req s) = s \<and> \<not> success (snd (drop_off e req s)))
   \<and> (req_card_id req = Some rc \<and> req_wash_type req = Some p
        \<and> \<not> check_card_already_assigned (data s) (strip rc)
        \<and> available_lockers (data s) = []
      \<longrightarrow> drop_off e req s = (s, failed ''No lockers available''))
   \<and> (\<not> success (snd (drop_off e req s))
      \<longrightarrow> data (fst (drop_off e req s)) = data s)
   \<and> check_card_already_assigned d k
       = (strip k \<in> fst ` set (active_cards d)
          \<or> (\<exists>a \<in> fst ` set (active_cards d). lower a = lower (strip k))
          \<or> (\<exists>t \<in> set (transactions d).
                t_status t \<noteq> Completed \<and> lower (strip (t_card_id t)) = lower (strip k)))"
proof (intro conjI impI)
  assume "check_card_already_assigned (data s) (strip c)"
  then show "assign_card_to_locker e c l w s
            = (s, False, ''Card already assigned to another locker'')"
    by (rule assign_already_assigned)
next
  assume "\<not> check_card_already_assigned (data s) (strip c)
        \<and> l \<notin> set (available_lockers (data s))"
  then show "assign_card_to_locker e c l w s = (s, False, ''Locker not available'')"
    by (simp add: assign_locker_unavailable)
next
  assume a: "\<not> check_card_already_assigned (data s) (strip c)
        \<and> l \<in> set (available_lockers (data s))
        \<and> find (\<lambda>wt. wt_id wt = w) (snd (get_wash_types (wash_reply e) s)) = None"
  then have eq: "assign_card_to_locker e c l w s
           = (fst (get_wash_types (wash_reply e) s), False, ''Invalid wash type'')"
    by (simp add: assign_invalid_wash_type)
  then show "snd (assign_card_to_locker e c l w s) = (False, ''Invalid wash type'')"
    by simp
  from eq have "\<not> fst (snd (assign_card_to_locker e c l w s))" by simp
  then show "data (fst (assign_card_to_locker e c l w s)) = data s"
    by (rule assign_failed_no_mutation)
next
  assume "\<not> fst (snd (assign_card_to_locker e c l w s))"
  then show "data (fst (assign_card_to_locker e c l w s)) = data s"
    by (rule assign_failed_no_mutation)
next
  assume "req_card_id req = Some rc \<and> req_wash_type req = Some p
        \<and> check_card_already_assigned (data s) (strip rc)"
  then show "fst (drop_off e req s) = s" and "\<not> success (snd (drop_off e req s))"
    by (simp_all add: drop_off_already_assigned)
next
  assume "req_card_id req = Some rc \<and> req_wash_type req = Some p
        \<and> \<not> check_card_already_assigned (data s) (strip rc)
        \<and> available_lockers (data s) = []"
  then show "drop_off e req s = (s, failed ''No lockers available'')"
    by (simp add: drop_off_no_lockers)
next
  assume "\<not> success (snd (drop_off e req s))"
  then show "data (fst (drop_off e req s)) = data s"
    by (rule drop_off_failed_no_mutation)
next
  show "check_card_already_assigned d k
       = (strip k \<in> fst ` set (active_cards d)
          \<or> (\<exists>a \<in> fst ` set (active_cards d). lower a = lower (strip k))
          \<or> (\<exists>t \<in> set (transactions d).
                t_status t \<noteq> Completed \<and> lower (strip (t_card_id t)) = lower (strip k)))"
    by (rule check_card_already_assigned_iff)
qed

theorem assign_preconditions_in_order_witness:
  "assign_card_to_locker env0 '' a1 '' ''7'' (JInt 99) after_A1
     = (after_A1, False, ''Card already assigned to another locker'')
   \<and> assign_card_to_locker env0 ''B2'' ''7'' (JInt 99) after_A1
     = (after_A1, False, ''Locker not available'')
   \<and> snd (assign_card_to_locker env0 ''B2'' ''2'' (JInt 99) after_A1)
     = (False, ''Invalid wash type'')
   \<and> data (fst (assign_card_to_locker env0 ''B2'' ''2'' (JInt 99) after_A1)) = data after_A1
   \<and> fst (drop_off env0 request_A1 after_A1) = after_A1
   \<and> \<not> success (snd (drop_off env0 request_A1 after_A1))"
proof -
  have dup: "check_card_already_assigned (data after_A1) (strip '' a1 '')"
    by code_simp
  have fresh: "\<not> check_card_already_assigned (data after_A1) (strip ''B2'')"
    by code_simp
  have l7: "''7'' \<notin> set (available_lockers (data after_A1))"
    and l2: "''2'' \<in> set (available_lockers (data after_A1))"
    by (simp_all add: after_A1_data)
  have nowt: "find (\<lambda>wt. wt_id wt = JInt 99) (snd (get_wash_types (wash_reply env0) after_A1)) = None"
    by code_simp
  from assign_preconditions_in_order[where s=after_A1 and c="'' a1 ''" and e=env0 and l="''7''"
      and w="JInt 99"] dup
  have a: "assign_card_to_locker env0 '' a1 '' ''7'' (JInt 99) after_A1
     = (after_A1, False, ''Card already assigned to another locker'')"
    by blast
  from assign_preconditions_in_order[where s=after_A1 and c="''B2''" and e=env0 and l="''7''"
      and w="JInt 99"] fresh l7
  have b: "assign_card_to_locker env0 ''B2'' ''7'' (JInt 99) after_A1
     = (after_A1, False, ''Locker not available'')"
    by blast
  from assign_preconditions_in_order[where s=after_A1 and c="''B2''" and e=env0 and l="''2''"
      and w="JInt 99"] fresh l2 nowt
  have c: "snd (assign_card_to_locker env0 ''B2'' ''2'' (JInt 99) after_A1)
     = (False, ''Invalid wash type'')
   \<and> data (fst (assign_card_to_locker env0 ''B2'' ''2'' (JInt 99) after_A1)) = data after_A1"
    by blast
  have again: "check_card_already_assigned (data after_A1) (strip ''A1'')"
    by code_simp
  have rq: "req_card_id request_A1 = Some ''A1''"
    "req_wash_type request_A1 = Some (WashValue (JInt 1))"
    by (simp_all add: request_A1_def)
  from assign_preconditions_in_order[where s=after_A1 and e=env0 and req=request_A1
      and rc="''A1''" and p="WashValue (JInt 1)"] again rq
  have d: "fst (drop_off env0 request_A1 after_A1) = after_A1
    \<and> \<not> success (snd (drop_off env0 request_A1 after_A1))"
    by blast
  from a b c d show ?thesis by blast
qed







lemma save_send_irrelevant_to_catalogue [simp]:
  "wash_reply (e\<lparr>save_ok := a, send_ok := b\<rparr>) = wash_reply e"
  "name_lookup_reply (e\<lparr>save_ok := a, send_ok := b\<rparr>) = name_lookup_reply e"
  "now (e\<lparr>save_ok := a, send_ok := b\<rparr>) = now e"
  "new_uuid (e\<lparr>save_ok := a, send_ok := b\<rparr>) = new_uuid e"
  "exception_text (e\<lparr>save_ok := a, send_ok := b\<rparr>) = exception_text e"
  by simp_all

lemma assign_outcomes_ignored:
  "snd (assign_card_to_locker (e\<lparr>save_ok := a, send_ok := b\<rparr>) c l w s)
     = snd (assign_card_to_locker e c l w s)
   \<and> data (fst (assign_card_to_locker (e\<lparr>save_ok := a, send_ok := b\<rparr>) c l w s))
     = data (fst (assign_card_to_locker e c l w s))"
proof -
  let ?e = "e\<lparr>save_ok := a, send_ok := b\<rparr>"
  have tx_eq: "\<And>k wt. LockerTransaction ?e k l wt = LockerTransaction e k l wt"
    by (simp add: LockerTransaction_def split: sum.splits)
  show ?thesis
  proof (cases "check_card_already_assigned (data s) (strip c)")
    case True
    then show ?thesis by (simp add: assign_already_assigned)
  next
    case nc: False
    show ?thesis
    proof (cases "l \<in> set (available_lockers (data s))")
      case False
      with nc show ?thesis by (simp add: assign_locker_unavailable)
    next
      case av: True
      show ?thesis
      proof (cases "find (\<lambda>wt. wt_id wt = w) (snd (get_wash_types (wash_reply e) s))")
        case None
        then have None': "find (\<lambda>wt. wt_id wt = w) (snd (get_wash_types (wash_reply ?e) s)) = None"
          by simp
        from assign_invalid_wash_type[OF nc av None] assign_invalid_wash_type[OF nc av None']
        show ?thesis by simp
      next
        case (Some sel)
        then have Some': "find (\<lambda>wt. wt_id wt = w) (snd (get_wash_types (wash_reply ?e) s)) = Some sel"
          by simp
        show ?thesis
        proof (cases "LockerTransaction e (strip c) l (Some sel)")
          case (Inl err)
          then have Inl': "LockerTransaction ?e (strip c) l (Some sel) = Inl err"
            by (simp add: tx_eq)
          from assign_system_error[OF nc av Some Inl] assign_system_error[OF nc av Some' Inl']
          show ?thesis by simp
        next
          case (Inr tx)
          then have Inr': "LockerTransaction ?e (strip c) l (Some sel) = Inr tx"
            by (simp add: tx_eq)
          from assign_success(1,2)[OF nc av Some Inr] assign_success(1,2)[OF nc av Some' Inr']
          show ?thesis by simp
        qed
      qed
    qed
  qed
qed

lemma pickup_outcomes_ignored:
  "snd (process_pickup (e\<lparr>save_ok := a, send_ok := b\<rparr>) c s) = snd (process_pickup e c s)
   \<and> data (fst (process_pickup (e\<lparr>save_ok := a, send_ok := b\<rparr>) c s))
     = data (fst (process_pickup e c s))"
  by (simp add: process_pickup_def Let_def split_beta save_data_frame send_to_server_frame
      unlock_locker_frame split: option.splits)

lemma drop_off_outcomes_ignored:
  "snd (drop_off (e\<lparr>save_ok := a, send_ok := b\<rparr>) req s) = snd (drop_off e req s)
   \<and> data (fst (drop_off (e\<lparr>save_ok := a, send_ok := b\<rparr>) req s))
     = data (fst (drop_off e req s))"
proof -
  let ?e = "e\<lparr>save_ok := a, send_ok := b\<rparr>"
  have res_eq: "\<And>p. resolve_wash_type_id ?e p s = resolve_wash_type_id e p s"
    by (simp add: resolve_wash_type_id_def split: wash_param.splits jval.splits)
  show ?thesis
  proof (cases "req_card_id req")
    case None
    then show ?thesis by (simp add: drop_off_def)
  next
    case rc: (Some rc)
    show ?thesis
    proof (cases "req_wash_type req")
      case None
      with rc show ?thesis by (simp add: drop_off_def)
    next
      case p: (Some p)
      show ?thesis
      proof (cases "check_card_already_assigned (data s) (strip rc)")
        case True
        with rc p show ?thesis by (simp add: drop_off_def)
      next
        case nc: False
        show ?thesis
        proof (cases "available_lockers (data s)")
          case Nil
          with rc p nc show ?thesis by (simp add: drop_off_def)
        next
          case (Cons l ls)
          obtain s1 r where res: "resolve_wash_type_id e p s = (s1, r)"
            by (cases "resolve_wash_type_id e p s")
          then have res': "resolve_wash_type_id ?e p s = (s1, r)"
            by (simp add: res_eq)
          show ?thesis
          proof (cases r)
            case (Inl x)
            with rc p nc Cons res res' show ?thesis by (simp add: drop_off_def)
          next
            case (Inr w)
            obtain s2 ok msg where a: "assign_card_to_locker e rc l w s1 = (s2, ok, msg)"
              by (cases "assign_card_to_locker e rc l w s1")
            obtain s2' ok' msg' where a': "assign_card_to_locker ?e rc l w s1 = (s2', ok', msg')"
              by (cases "assign_card_to_locker ?e rc l w s1")
            from assign_outcomes_ignored[where e=e and a=a and b=b and c=rc and l=l and w=w and s=s1] a a'
            have same: "ok' = ok" "msg' = msg" "data s2' = data s2"
              by simp_all
            have d: "drop_off e req s
                = (if ok then (fst (unlock_locker l s2),
                               \<lparr>success = True, message = msg, resp_locker_id = Some l\<rparr>)
                   else (s2, failed msg))"
              using rc p nc Cons res Inr a by (simp add: drop_off_def split_beta)
            have d': "drop_off ?e req s
                = (if ok' then (fst (unlock_locker l s2'),
                               \<lparr>success = True, message = msg', resp_locker_id = Some l\<rparr>)
                   else (s2', failed msg'))"
              using rc p nc Cons res' Inr a' by (simp add: drop_off_def split_beta)
            show ?thesis
              unfolding d d' using same by (simp add: unlock_locker_frame)
          qed
        qed
      qed
    qed
  qed
qed

text \<open>
  C8 (persistence and telemetry failures). For every input and state, the result
  returned by \<open>assign_card_to_locker\<close>, \<open>drop_off\<close> and \<open>process_pickup\<close> and the
  in-memory data they leave are the same whatever the outcomes of the file write and
  of the telemetry post.
\<close>

theorem persistence_and_telemetry_outcomes_ignored:
  "snd (assign_card_to_locker (e\<lparr>save_ok := a, send_ok := b\<rparr>) c l w s)
     = snd (assign_card_to_locker e c l w s)
   \<and> data (fst (assign_card_to_locker (e\<lparr>save_ok := a, send_ok := b\<rparr>) c l w s))
     = data (fst (assign_card_to_locker e c l w s))
   \<and> snd (drop_off (e\<lparr>save_ok := a, send_ok := b\<rparr>) req s) = snd (drop_off e req s)
   \<and> data (fst (drop_off (e\<lparr>save_ok := a, send_ok := b\<rparr>) req s))
     = data (fst (drop_off e req s))
   \<and> snd (process_pickup (e\<lparr>save_ok := a, send_ok := b\<rparr>) c s) = snd (process_pickup e c s)
   \<and> data (fst (process_pickup (e\<lparr>save_ok := a, send_ok := b\<rparr>) c s))
     = data (fst (process_pickup e c s))"
  using assign_outcomes_ignored[where e=e and a=a and b=b and c=c and l=l and w=w and s=s]
    drop_off_outcomes_ignored[where e=e and a=a and b=b and req=req and s=s]
    pickup_outcomes_ignored[where e=e and a=a and b=b and c=c and s=s]
  by simp

theorem persistence_and_telemetry_outcomes_ignored_witness:
  "snd (drop_off (env0\<lparr>save_ok := False, send_ok := False\<rparr>) request_A1
          (initial_system DEFAULT_CONFIG))
     = \<lparr>success = True,
        message = ''Card assigned to locker 1 with Standard Wash service'',
        resp_locker_id = Some ''1''\<rparr>
   \<and> data (fst (drop_off (env0\<lparr>save_ok := False, send_ok := False\<rparr>) request_A1
                 (initial_system DEFAULT_CONFIG)))
     = data after_A1
   \<and> db_file (fst (drop_off (env0\<lparr>save_ok := False, send_ok := False\<rparr>) request_A1
                 (initial_system DEFAULT_CONFIG)))
     = Some (initial_data DEFAULT_CONFIG)
   \<and> telemetry (fst (drop_off (env0\<lparr>save_ok := False, send_ok := False\<rparr>) request_A1
                 (initial_system DEFAULT_CONFIG)))
     = []
   \<and> snd (process_pickup (env0\<lparr>save_ok := False, send_ok := False\<rparr>) ''A1'' after_A1)
     = (True, ''Clothes picked up from locker 1'')
   \<and> available_lockers
        (data (fst (process_pickup (env0\<lparr>save_ok := False, send_ok := False\<rparr>) ''A1'' after_A1)))
     = [''2'', ''1'']"
proof -
  let ?bad = "env0\<lparr>save_ok := False, send_ok := False\<rparr>"
  let ?s = "initial_system DEFAULT_CONFIG"
  note indep = persistence_and_telemetry_outcomes_ignored[where e=env0 and a=False and b=False]
  have r0: "snd (drop_off env0 request_A1 ?s)
     = \<lparr>success = True,
        message = ''Card assigned to locker 1 with Standard Wash service'',
        resp_locker_id = Some ''1''\<rparr>"
    by code_simp
  have p0: "snd (process_pickup env0 ''A1'' after_A1) = (True, ''Clothes picked up from locker 1'')"
    by code_simp
  have p1: "available_lockers (data (fst (process_pickup env0 ''A1'' after_A1))) = [''2'', ''1'']"
    by code_simp
  have f: "db_file (fst (drop_off ?bad request_A1 ?s)) = Some (initial_data DEFAULT_CONFIG)"
    by code_simp
  have t: "telemetry (fst (drop_off ?bad request_A1 ?s)) = []"
    by code_simp
  from indep[where c="''A1''" and l="''1''" and w="JInt 1" and s="?s" and req=request_A1] r0
  have a: "snd (drop_off ?bad request_A1 ?s)
     = \<lparr>success = True,
        message = ''Card assigned to locker 1 with Standard Wash service'',
        resp_locker_id = Some ''1''\<rparr>"
    and b: "data (fst (drop_off ?bad request_A1 ?s)) = data after_A1"
    by (simp_all add: after_A1_def)
  from indep[where c="''A1''" and l="''1''" and w="JInt 1" and s=after_A1 and req=request_A1] p0 p1
  have c: "snd (process_pickup ?bad ''A1'' after_A1) = (True, ''Clothes picked up from locker 1'')"
    and d: "available_lockers (data (fst (process_pickup ?bad ''A1'' after_A1))) = [''2'', ''1'']"
    by simp_all
  from a b c d f t show ?thesis by simp
qed

end
